theory Spec2Isabelle
  imports Main "HOL-Library.Multiset"
begin

section \<open>Strings\<close>

text \<open>
  A JavaScript string is a sequence of UTF-16 code units; it is modelled as the list of
  their numeric values.  ASCII literals of the source are written with \<open>asc\<close>; the
  Chinese literals are written out as code units, each with an English gloss.
  \<open>undefined\<close>, \<open>null\<close> and \<open>''\<close> are all falsy, so a string the code only tests
  for truthiness before use is modelled by the empty list when it is absent.
\<close>

type_synonym jsstring = "nat list"

definition asc :: "string \<Rightarrow> jsstring" where
  "asc s = map of_char s"

definition truthy :: "jsstring \<Rightarrow> bool" where
  "truthy s = (s \<noteq> [])"

section \<open>Users and the role gate\<close>

text \<open>\<open>src/types/auth.ts\<close>: the enum \<open>UserRole\<close> and the interface \<open>User\<close>.\<close>

datatype UserRole = USER | ADMIN | SUPER_USER

record User =
  user_id :: jsstring
  username :: jsstring
  email :: jsstring
  avatarUrl :: jsstring
  role :: UserRole
  createdAt :: jsstring
  updatedAt :: jsstring

text \<open>
  \<open>App\<close>: \<open>isAuthenticated && ((user?.role === 'SUPER_USER') || (user?.role === 'ADMIN')
  || (user?.username === 'admin'))\<close>.  The session's user is \<open>User | null\<close>; on
  \<open>null\<close> the optional chaining gives \<open>undefined\<close> and every comparison is false.
\<close>

definition isSuperUser :: "bool \<Rightarrow> User option \<Rightarrow> bool" where
  "isSuperUser isAuthenticated user =
     (isAuthenticated \<and>
       (case user of
          None \<Rightarrow> False
        | Some u \<Rightarrow> role u = SUPER_USER \<or> role u = ADMIN \<or> username u = asc ''admin''))"

section \<open>Regular expressions\<close>

text \<open>
  The regular-expression literals of the source, as syntax trees.  \<open>Lit\<close> is a run of
  literal characters, \<open>Dot\<close> is \<open>.\<close>, \<open>Space\<close> is \<open>\s\<close>, \<open>Cls\<close> is a character class
  \<open>[...]\<close>, \<open>Opt\<close> is \<open>?\<close>, \<open>Star\<close> is \<open>*\<close>.  \<open>Null\<close> matches nothing and only arises
  during matching.
\<close>

datatype rx =
    Null
  | Lit jsstring
  | Dot
  | Space
  | Cls "nat list"
  | Seq rx rx
  | Alt rx rx
  | Opt rx
  | Star rx

text \<open>
  Canonicalisation under the \<open>i\<close> flag (without \<open>u\<close>): a code unit is compared through
  its upper-case form, and a non-ASCII code unit never canonicalises to an ASCII one.  The
  patterns of this program use the flag with ASCII letters and CJK ideographs only, for
  which upper-casing the ASCII letters is all that matters.
\<close>

definition canonicalize :: "bool \<Rightarrow> nat \<Rightarrow> nat" where
  "canonicalize ignoreCase c = (if ignoreCase \<and> 97 \<le> c \<and> c \<le> 122 then c - 32 else c)"

text \<open>Line terminators (not matched by \<open>.\<close>) and white space (matched by \<open>\s\<close>).\<close>

definition lineTerminator :: "nat \<Rightarrow> bool" where
  "lineTerminator c = (c = 10 \<or> c = 13 \<or> c = 8232 \<or> c = 8233)"

definition whiteSpace :: "nat \<Rightarrow> bool" where
  "whiteSpace c =
     (c = 9 \<or> c = 11 \<or> c = 12 \<or> c = 32 \<or> c = 160 \<or> c = 5760 \<or> (8192 \<le> c \<and> c \<le> 8202)
      \<or> c = 8239 \<or> c = 8287 \<or> c = 12288 \<or> c = 65279 \<or> lineTerminator c)"

fun nullable :: "rx \<Rightarrow> bool" where
  "nullable Null = False"
| "nullable (Lit s) = (s = [])"
| "nullable Dot = False"
| "nullable Space = False"
| "nullable (Cls cs) = False"
| "nullable (Seq r s) = (nullable r \<and> nullable s)"
| "nullable (Alt r s) = (nullable r \<or> nullable s)"
| "nullable (Opt r) = True"
| "nullable (Star r) = True"

definition seq :: "rx \<Rightarrow> rx \<Rightarrow> rx" where
  "seq r s = (if r = Null \<or> s = Null then Null else Seq r s)"

definition alt :: "rx \<Rightarrow> rx \<Rightarrow> rx" where
  "alt r s = (if r = Null then s else if s = Null then r else Alt r s)"

text \<open>\<open>deriv ic c r\<close> matches what \<open>r\<close> matches after a first character \<open>c\<close>.\<close>

fun deriv :: "bool \<Rightarrow> nat \<Rightarrow> rx \<Rightarrow> rx" where
  "deriv ic c Null = Null"
| "deriv ic c (Lit []) = Null"
| "deriv ic c (Lit (x # xs)) = (if canonicalize ic x = canonicalize ic c then Lit xs else Null)"
| "deriv ic c Dot = (if lineTerminator c then Null else Lit [])"
| "deriv ic c Space = (if whiteSpace c then Lit [] else Null)"
| "deriv ic c (Cls cs) = (if canonicalize ic c \<in> set (map (canonicalize ic) cs) then Lit [] else Null)"
| "deriv ic c (Seq r s) =
     (if nullable r then alt (seq (deriv ic c r) s) (deriv ic c s) else seq (deriv ic c r) s)"
| "deriv ic c (Alt r s) = alt (deriv ic c r) (deriv ic c s)"
| "deriv ic c (Opt r) = deriv ic c r"
| "deriv ic c (Star r) = seq (deriv ic c r) (Star r)"

text \<open>Some prefix of the string matches.\<close>

fun matchesPrefix :: "bool \<Rightarrow> rx \<Rightarrow> jsstring \<Rightarrow> bool" where
  "matchesPrefix ic r [] = nullable r"
| "matchesPrefix ic r (c # cs) = (nullable r \<or> (r \<noteq> Null \<and> matchesPrefix ic (deriv ic c r) cs))"

text \<open>\<open>RegExp.prototype.test\<close> for a pattern without anchors: some substring matches.\<close>

fun test :: "bool \<Rightarrow> rx \<Rightarrow> jsstring \<Rightarrow> bool" where
  "test ic r [] = nullable r"
| "test ic r (c # cs) = (matchesPrefix ic r (c # cs) \<or> test ic r cs)"

text \<open>
  What a pattern matches, to check the matcher against: \<open>rx_lang ic r\<close> is the set of strings
  that \<open>r\<close> matches as a whole.
\<close>

definition conc :: "jsstring set \<Rightarrow> jsstring set \<Rightarrow> jsstring set" where
  "conc A B = {u @ v | u v. u \<in> A \<and> v \<in> B}"

inductive_set star :: "jsstring set \<Rightarrow> jsstring set" for A :: "jsstring set" where
  empty: "[] \<in> star A"
| step: "u \<in> A \<Longrightarrow> v \<in> star A \<Longrightarrow> u @ v \<in> star A"

fun rx_lang :: "bool \<Rightarrow> rx \<Rightarrow> jsstring set" where
  "rx_lang ic Null = {}"
| "rx_lang ic (Lit s) = {w. map (canonicalize ic) w = map (canonicalize ic) s}"
| "rx_lang ic Dot = {[c] | c. \<not> lineTerminator c}"
| "rx_lang ic Space = {[c] | c. whiteSpace c}"
| "rx_lang ic (Cls cs) = {[c] | c. canonicalize ic c \<in> canonicalize ic ` set cs}"
| "rx_lang ic (Seq r s) = conc (rx_lang ic r) (rx_lang ic s)"
| "rx_lang ic (Alt r s) = rx_lang ic r \<union> rx_lang ic s"
| "rx_lang ic (Opt r) = insert [] (rx_lang ic r)"
| "rx_lang ic (Star r) = star (rx_lang ic r)"

section \<open>String literals of the source\<close>

text \<open>
  The Chinese string literals, as UTF-16 code units.  Each definition gives the code
  points and an English gloss.
\<close>

named_theorems lit \<open>the string literals of the source\<close>

text \<open>U+7528 U+6236 U+540D U+6216 U+5BC6 U+78BC U+932F U+8AA4 (username or password wrong)\<close>

definition zh_invalid_credentials :: jsstring where [lit]:
  "zh_invalid_credentials = [29992, 25142, 21517, 25110, 23494, 30908, 37679, 35492]"

text \<open>U+8A8D U+8B49 U+5931 U+6557 (authentication failed)\<close>

definition zh_auth_failed :: jsstring where [lit]:
  "zh_auth_failed = [35469, 35657, 22833, 25943]"

text \<open>U+767B U+5165 U+5931 U+6557 (login failed)\<close>

definition zh_login_failed :: jsstring where [lit]:
  "zh_login_failed = [30331, 20837, 22833, 25943]"

text \<open>U+6191 U+8B49 U+932F U+8AA4 (credential error)\<close>

definition zh_credential_error :: jsstring where [lit]:
  "zh_credential_error = [24977, 35657, 37679, 35492]"

text \<open>U+4F7F U+7528 U+8005 U+540D U+7A31 U+4E0D U+5B58 U+5728 (user name does not exist)\<close>

definition zh_user_name_not_exist :: jsstring where [lit]:
  "zh_user_name_not_exist = [20351, 29992, 32773, 21517, 31281, 19981, 23384, 22312]"

text \<open>U+7528 U+6236 U+540D U+4E0D U+5B58 U+5728 (username does not exist)\<close>

definition zh_username_not_exist :: jsstring where [lit]:
  "zh_username_not_exist = [29992, 25142, 21517, 19981, 23384, 22312]"

text \<open>U+7528 U+6236 U+540D U+9577 U+5EA6 U+5FC5 U+9808 U+5728 U+0033 U+002D U+0035 U+0030 U+500B U+5B57 U+7B26 U+4E4B U+9593 (username length must be 3-50 characters)\<close>

definition zh_username_length_in :: jsstring where [lit]:
  "zh_username_length_in = [29992, 25142, 21517, 38263, 24230, 24517, 38920, 22312, 51, 45, 53, 48, 20491, 23383, 31526, 20043, 38291]"

text \<open>U+7528 U+6236 U+540D U+9577 U+5EA6 U+5FC5 U+9808 U+5728 U+0033 U+002D U+0035 U+0030 U+500B U+5B57 U+5143 U+4E4B U+9593 (username length must be 3-50 characters, other wording)\<close>

definition zh_username_length_out :: jsstring where [lit]:
  "zh_username_length_out = [29992, 25142, 21517, 38263, 24230, 24517, 38920, 22312, 51, 45, 53, 48, 20491, 23383, 20803, 20043, 38291]"

text \<open>U+5BC6 U+78BC U+9577 U+5EA6 U+81F3 U+5C11 U+0036 U+500B U+5B57 U+7B26 (password length at least 6 characters)\<close>

definition zh_password_length_in :: jsstring where [lit]:
  "zh_password_length_in = [23494, 30908, 38263, 24230, 33267, 23569, 54, 20491, 23383, 31526]"

text \<open>U+5BC6 U+78BC U+9577 U+5EA6 U+81F3 U+5C11 U+0020 U+0036 U+0020 U+500B U+5B57 U+5143 (password length at least 6 characters, other wording)\<close>

definition zh_password_length_out :: jsstring where [lit]:
  "zh_password_length_out = [23494, 30908, 38263, 24230, 33267, 23569, 32, 54, 32, 20491, 23383, 20803]"

text \<open>U+90F5 U+7BB1 U+683C U+5F0F U+4E0D U+6B63 U+78BA (mailbox format incorrect)\<close>

definition zh_mailbox_format_trad :: jsstring where [lit]:
  "zh_mailbox_format_trad = [37109, 31665, 26684, 24335, 19981, 27491, 30906]"

text \<open>U+90F5 U+7BB1 U+683C U+5F0F U+4E0D U+6B63 U+786E (mailbox format incorrect, last character simplified)\<close>

definition zh_mailbox_format_simp :: jsstring where [lit]:
  "zh_mailbox_format_simp = [37109, 31665, 26684, 24335, 19981, 27491, 30830]"

text \<open>U+96FB U+5B50 U+90F5 U+4EF6 U+683C U+5F0F U+4E0D U+6B63 U+78BA (email format incorrect)\<close>

definition zh_email_format :: jsstring where [lit]:
  "zh_email_format = [38651, 23376, 37109, 20214, 26684, 24335, 19981, 27491, 30906]"

text \<open>U+7528 U+6236 U+540D (username)\<close>

definition zh_username :: jsstring where [lit]:
  "zh_username = [29992, 25142, 21517]"

text \<open>U+4F7F U+7528 U+8005 U+540D U+7A31 (user name)\<close>

definition zh_user_name :: jsstring where [lit]:
  "zh_user_name = [20351, 29992, 32773, 21517, 31281]"

text \<open>U+5E33 U+865F (account)\<close>

definition zh_account :: jsstring where [lit]:
  "zh_account = [24115, 34399]"

text \<open>U+5DF2 U+5B58 U+5728 (already exists)\<close>

definition zh_already_exists :: jsstring where [lit]:
  "zh_already_exists = [24050, 23384, 22312]"

text \<open>U+4F7F U+7528 U+8005 U+540D U+7A31 U+5DF2 U+5B58 U+5728 (user name already exists)\<close>

definition zh_user_name_exists :: jsstring where [lit]:
  "zh_user_name_exists = [20351, 29992, 32773, 21517, 31281, 24050, 23384, 22312]"

text \<open>U+90F5 U+7BB1 (mailbox)\<close>

definition zh_mailbox :: jsstring where [lit]:
  "zh_mailbox = [37109, 31665]"

text \<open>U+5DF2 U+88AB U+4F7F U+7528 (already in use)\<close>

definition zh_already_used :: jsstring where [lit]:
  "zh_already_used = [24050, 34987, 20351, 29992]"

text \<open>U+90F5 U+7BB1 U+5DF2 U+5B58 U+5728 (mailbox already exists)\<close>

definition zh_mailbox_exists :: jsstring where [lit]:
  "zh_mailbox_exists = [37109, 31665, 24050, 23384, 22312]"

text \<open>U+96FB U+5B50 U+90F5 U+4EF6 (email)\<close>

definition zh_email :: jsstring where [lit]:
  "zh_email = [38651, 23376, 37109, 20214]"

text \<open>U+96FB U+5B50 U+90F5 U+4EF6 U+5DF2 U+88AB U+4F7F U+7528 (email already in use)\<close>

definition zh_email_used :: jsstring where [lit]:
  "zh_email_used = [38651, 23376, 37109, 20214, 24050, 34987, 20351, 29992]"

text \<open>U+5BC6 U+78BC U+78BA U+8A8D U+4E0D U+5339 U+914D (password confirmation does not match)\<close>

definition zh_password_mismatch :: jsstring where [lit]:
  "zh_password_mismatch = [23494, 30908, 30906, 35469, 19981, 21305, 37197]"

text \<open>U+5169 U+6B21 U+5BC6 U+78BC U+8F38 U+5165 U+4E0D U+4E00 U+81F4 (the two passwords differ)\<close>

definition zh_passwords_differ :: jsstring where [lit]:
  "zh_passwords_differ = [20841, 27425, 23494, 30908, 36664, 20837, 19981, 19968, 33268]"

text \<open>U+932F U+8AA4 (error)\<close>

definition zh_error :: jsstring where [lit]:
  "zh_error = [37679, 35492]"

text \<open>U+5931 U+6557 (failure)\<close>

definition zh_failure :: jsstring where [lit]:
  "zh_failure = [22833, 25943]"

text \<open>U+7528 U+6236 (user)\<close>

definition zh_user :: jsstring where [lit]:
  "zh_user = [29992, 25142]"

text \<open>U+5BC6 U+78BC (password)\<close>

definition zh_password :: jsstring where [lit]:
  "zh_password = [23494, 30908]"

text \<open>U+8A8D U+8B49 (authentication)\<close>

definition zh_authentication :: jsstring where [lit]:
  "zh_authentication = [35469, 35657]"

text \<open>U+6191 U+8B49 (credential)\<close>

definition zh_credential :: jsstring where [lit]:
  "zh_credential = [24977, 35657]"

text \<open>U+6C92 U+6709 U+5237 U+65B0 U+4EE4 U+724C (no refresh token)\<close>

definition zh_no_refresh_token :: jsstring where [lit]:
  "zh_no_refresh_token = [27794, 26377, 21047, 26032, 20196, 29260]"

text \<open>U+522A U+9664 U+6587 U+7AE0 U+5931 U+6557 U+FF0C U+8ACB U+91CD U+8A66 (deleting the posts failed, please try again)\<close>

definition zh_delete_posts_failed :: jsstring where [lit]:
  "zh_delete_posts_failed = [21034, 38500, 25991, 31456, 22833, 25943, 65292, 35531, 37325, 35430]"

text \<open>U+522A U+9664 U+4F5C U+54C1 U+9805 U+76EE U+5931 U+6557 U+FF0C U+8ACB U+91CD U+8A66 (deleting the portfolio items failed, please try again)\<close>

definition zh_delete_items_failed :: jsstring where [lit]:
  "zh_delete_items_failed = [21034, 38500, 20316, 21697, 38917, 30446, 22833, 25943, 65292, 35531, 37325, 35430]"

text \<open>U+522A U+9664 U+7559 U+8A00 U+5931 U+6557 (deleting the comment failed)\<close>

definition zh_delete_comment_failed :: jsstring where [lit]:
  "zh_delete_comment_failed = [21034, 38500, 30041, 35328, 22833, 25943]"

section \<open>The browser\<close>

text \<open>
  What the code reads and writes outside its own variables: \<open>localStorage\<close> (keys are
  the ASCII literals of the source), \<open>window.location\<close>, the language of \<open>i18n\<close> (empty
  when \<open>i18n?.language\<close> is undefined) and the requests handed to \<open>fetch\<close>, oldest first,
  each with its method and endpoint.
\<close>

record location =
  pathname :: jsstring
  search :: jsstring
  hash :: jsstring

record browser =
  localStorage :: "string \<rightharpoonup> jsstring"
  window_location :: location
  language :: jsstring
  fetched :: "(string \<times> jsstring) list"

definition getItem :: "browser \<Rightarrow> string \<Rightarrow> jsstring option" where
  "getItem b key = localStorage b key"

definition setItem :: "string \<Rightarrow> jsstring \<Rightarrow> browser \<Rightarrow> browser" where
  "setItem key v b = b\<lparr>localStorage := (localStorage b)(key \<mapsto> v)\<rparr>"

definition removeItem :: "string \<Rightarrow> browser \<Rightarrow> browser" where
  "removeItem key b = b\<lparr>localStorage := (localStorage b)(key := None)\<rparr>"

text \<open>\<open>s.startsWith(p)\<close>.\<close>

definition startsWith :: "jsstring \<Rightarrow> jsstring \<Rightarrow> bool" where
  "startsWith s p = (take (length p) s = p)"

text \<open>The decimal digits of a number, as the template literal prints a status code.\<close>

function numToString :: "nat \<Rightarrow> jsstring" where
  "numToString n = (if n < 10 then [48 + n] else numToString (n div 10) @ [48 + n mod 10])"
  by pat_completeness auto
termination
  by (relation "measure id") auto

declare numToString.simps [simp del]

section \<open>The request layer (\<open>ApiService\<close>)\<close>

text \<open>
  What \<open>fetch\<close> and the reading of the body give, supplied by the environment:
  \<^item> \<open>Reject m\<close>: \<open>fetch\<close> rejects (network failure) with an \<open>Error\<close> of message \<open>m\<close>;
  \<^item> \<open>Respond status statusText errorData parsed\<close>: a response arrives.  \<open>errorData\<close> holds
    the fields \<open>message\<close>, \<open>error\<close> and \<open>details\<close> of the JSON body (each empty when the
    field is missing or the body is not JSON, where the code takes \<open>{}\<close>); \<open>parsed\<close> is the
    outcome of \<open>text ? JSON.parse(text) : {}\<close>, either the message of the \<open>SyntaxError\<close> or
    the value.
  \<open>response.ok\<close> is true exactly for the statuses 200 to 299.
\<close>

record error_data =
  data_message :: jsstring
  data_error :: jsstring
  data_details :: jsstring

datatype 'a fetch_outcome =
    Reject jsstring
  | Respond nat jsstring error_data "jsstring + 'a"

definition response_ok :: "nat \<Rightarrow> bool" where
  "response_ok status = (200 \<le> status \<and> status \<le> 299)"

text \<open>
  The values thrown: \<open>ApiError(message, status, data)\<close>, and any other \<open>Error\<close> with its
  message.  Both are instances of \<open>Error\<close>.
\<close>

datatype js_error =
    ApiError jsstring nat error_data
  | Error jsstring

fun error_message :: "js_error \<Rightarrow> jsstring" where
  "error_message (ApiError m status d) = m"
| "error_message (Error m) = m"

text \<open>
  The table \<open>maps\<close> of \<open>translateServerMessage\<close>: pattern \<open>zh\<close>, \<open>en\<close>, \<open>zhOut\<close>.  The
  patterns of its first two rows, which both give the invalid-credentials message, have
  names.  In the second, \<open>[58, 65306]\<close> is the class of the colon and the full-width colon.
\<close>

definition pattern_invalid_credentials :: rx where
  "pattern_invalid_credentials = Alt (Lit zh_invalid_credentials) (Lit zh_auth_failed)"

definition pattern_credential_error :: rx where
  "pattern_credential_error =
     Alt (Seq (Lit zh_login_failed) (Seq (Opt (Cls [58, 65306])) (Seq (Star Space) (Lit zh_credential_error))))
         (Lit zh_credential_error)"

definition maps_table :: "(rx \<times> jsstring \<times> jsstring) list" where
  "maps_table =
    [(pattern_invalid_credentials,
        asc ''Invalid username or password.'', zh_invalid_credentials),
     (pattern_credential_error,
        asc ''Invalid username or password.'', zh_invalid_credentials),
     (Alt (Lit zh_user_name_not_exist) (Lit zh_username_not_exist),
        asc ''Username does not exist.'', zh_user_name_not_exist),
     (Lit zh_username_length_in,
        asc ''Username must be between 3 and 50 characters.'', zh_username_length_out),
     (Lit zh_password_length_in,
        asc ''Password must be at least 6 characters.'', zh_password_length_out),
     (Alt (Lit zh_mailbox_format_trad) (Lit zh_mailbox_format_simp),
        asc ''Invalid email format.'', zh_email_format),
     (Alt (Seq (Lit zh_username) (Seq (Star Dot) (Lit zh_already_exists)))
       (Alt (Seq (Lit zh_user_name) (Seq (Star Dot) (Lit zh_already_exists)))
            (Seq (Lit zh_account) (Seq (Star Dot) (Lit zh_already_exists)))),
        asc ''Username already exists.'', zh_user_name_exists),
     (Alt (Seq (Lit zh_mailbox) (Seq (Star Dot) (Lit zh_already_used)))
       (Alt (Lit zh_mailbox_exists)
         (Alt (Seq (Lit zh_email) (Seq (Star Dot) (Lit zh_already_used)))
              (Seq (Lit zh_email) (Seq (Star Dot) (Lit zh_already_exists))))),
        asc ''Email already exists.'', zh_email_used),
     (Lit zh_password_mismatch,
        asc ''Passwords do not match.'', zh_passwords_differ)]"

text \<open>The loop \<open>for (const m of maps)\<close>, with the code after it as the last case.\<close>

fun translateLoop :: "bool \<Rightarrow> (rx \<times> jsstring \<times> jsstring) list \<Rightarrow> jsstring \<Rightarrow> jsstring" where
  "translateLoop isZh [] message =
     (if isZh then message
      else if test False (Alt (Lit zh_error) (Lit zh_failure)) message
        then asc ''Request failed. Please try again.''
      else message)"
| "translateLoop isZh ((zh, en, zhOut) # ms) message =
     (if test False zh message
        then (if isZh then (if truthy zhOut then zhOut else message) else en)
      else translateLoop isZh ms message)"

definition translateServerMessage :: "jsstring \<Rightarrow> jsstring \<Rightarrow> jsstring" where
  "translateServerMessage i18n_language message =
     (let lang = (if truthy i18n_language then i18n_language else asc ''en'');
          isZh = startsWith lang (asc ''zh'')
      in translateLoop isZh maps_table message)"

definition removeToken :: "browser \<Rightarrow> browser" where
  "removeToken b = removeItem ''authToken'' b"

text \<open>
  The constant \<open>rawMessage\<close> of \<open>request\<close>: \<open>errorData.message || errorData.error ||
  errorData.details\<close>, or the line made of the status.
\<close>

definition rawMessage :: "nat \<Rightarrow> jsstring \<Rightarrow> error_data \<Rightarrow> jsstring" where
  "rawMessage status statusText errorData =
     (if truthy (data_message errorData) then data_message errorData
      else if truthy (data_error errorData) then data_error errorData
      else if truthy (data_details errorData) then data_details errorData
      else asc ''API Error: '' @ numToString status @ asc '' '' @ statusText)"

text \<open>
  \<open>ApiService.request\<close>, in two parts.  \<open>fetch_sent\<close> is the part up to \<open>await fetch(url,
  config)\<close>: the request is handed to \<open>fetch\<close>.  \<open>request_settle\<close> is the part after it,
  run when \<open>fetch\<close> has settled with the given outcome.  The result is the value the
  promise resolves to (\<open>Inr\<close>) or the error it rejects with (\<open>Inl\<close>), and the browser
  afterwards.
\<close>

definition fetch_sent :: "browser \<Rightarrow> string \<Rightarrow> jsstring \<Rightarrow> browser" where
  "fetch_sent b method endpoint = b\<lparr>fetched := fetched b @ [(method, endpoint)]\<rparr>"

definition request_settle :: "browser \<Rightarrow> 'a fetch_outcome \<Rightarrow> (js_error + 'a) \<times> browser" where
  "request_settle b1 outcome =
     (case outcome of
        Reject m \<Rightarrow> (Inl (Error m), b1)
      | Respond status statusText errorData parsed \<Rightarrow>
          if \<not> response_ok status then
            (let message = translateServerMessage (language b1) (rawMessage status statusText errorData);
                 b2 = (if status = 401 then removeToken b1 else b1)
             in (Inl (ApiError message status errorData), b2))
          else (case parsed of
                  Inl m \<Rightarrow> (Inl (Error m), b1)
                | Inr v \<Rightarrow> (Inr v, b1)))"

definition request :: "browser \<Rightarrow> string \<Rightarrow> jsstring \<Rightarrow> 'a fetch_outcome \<Rightarrow> (js_error + 'a) \<times> browser" where
  "request b method endpoint outcome = request_settle (fetch_sent b method endpoint) outcome"

section \<open>\<open>AuthService\<close>\<close>

record AuthResponse =
  success :: bool
  message :: jsstring
  token :: jsstring
  refreshToken :: jsstring
  user :: User

text \<open>\<open>AuthService.login\<close>.\<close>

definition AuthService_login ::
  "browser \<Rightarrow> jsstring \<Rightarrow> jsstring \<Rightarrow> AuthResponse fetch_outcome \<Rightarrow> (js_error + AuthResponse) \<times> browser" where
  "AuthService_login b username' password outcome =
     (case request b ''POST'' (asc ''/auth/login'') outcome of
        (Inl err, b1) \<Rightarrow> (Inl err, b1)
      | (Inr response, b1) \<Rightarrow>
          (Inr response,
           if truthy (token response)
           then setItem ''authProvider'' (asc ''local'')
                  (setItem ''refreshToken'' (refreshToken response)
                    (setItem ''authToken'' (token response) b1))
           else b1))"

text \<open>
  \<open>AuthService.logout\<close>: the request, whose failure is caught and logged, then the
  \<open>finally\<close> block.  \<open>logout_resume\<close> is the part after \<open>fetch\<close> has been called: what
  a logout that was started and not awaited still does when its request is answered.
\<close>

definition logout_finally :: "browser \<Rightarrow> browser" where
  "logout_finally b =
     removeItem ''authProvider''
       (removeItem ''userProfile''
         (removeItem ''refreshToken''
           (removeItem ''authToken'' b)))"

definition AuthService_logout :: "browser \<Rightarrow> 'a fetch_outcome \<Rightarrow> browser" where
  "AuthService_logout b outcome =
     logout_finally (snd (request b ''POST'' (asc ''/auth/logout'') outcome))"

definition logout_resume :: "browser \<Rightarrow> 'a fetch_outcome \<Rightarrow> browser" where
  "logout_resume b1 outcome = logout_finally (snd (request_settle b1 outcome))"

text \<open>\<open>AuthService.isAuthenticated\<close>: \<open>!!localStorage.getItem('authToken')\<close>.\<close>

definition AuthService_isAuthenticated :: "browser \<Rightarrow> bool" where
  "AuthService_isAuthenticated b =
     (case getItem b ''authToken'' of None \<Rightarrow> False | Some t \<Rightarrow> truthy t)"

text \<open>
  \<open>AuthService.refreshToken\<close>.  Every error thrown in the \<open>try\<close> block reaches the
  \<open>catch\<close>, which calls \<open>this.logout()\<close> without awaiting it and rethrows.  So when the
  promise of \<open>refreshToken\<close> rejects, the logout has sent its request and done nothing
  else: the browser returned is that one, and \<open>logout_resume\<close> gives the browser after
  the logout's request has been answered.
\<close>

definition AuthService_refreshToken ::
  "browser \<Rightarrow> AuthResponse fetch_outcome \<Rightarrow> (js_error + AuthResponse) \<times> browser" where
  "AuthService_refreshToken b outcome =
     (case (case getItem b ''refreshToken'' of
              None \<Rightarrow> (Inl (Error zh_no_refresh_token), b)
            | Some rt \<Rightarrow>
                if \<not> truthy rt then (Inl (Error zh_no_refresh_token), b)
                else request b ''POST'' (asc ''/auth/refresh'') outcome) of
        (Inl err, b1) \<Rightarrow> (Inl err, fetch_sent b1 ''POST'' (asc ''/auth/logout''))
      | (Inr response, b1) \<Rightarrow>
          (Inr response,
           if truthy (token response)
           then setItem ''refreshToken'' (refreshToken response)
                  (setItem ''authToken'' (token response) b1)
           else b1))"

section \<open>The session manager (\<open>AuthProvider\<close>)\<close>

record session =
  session_user :: "User option"
  session_isAuthenticated :: bool
  loading :: bool
  session_error :: "jsstring option"

text \<open>The pattern of \<open>login\<close>, used with the flag \<open>i\<close>.\<close>

definition loginPattern :: rx where
  "loginPattern =
     Alt (Lit zh_user) (Alt (Lit zh_password) (Alt (Lit zh_authentication)
       (Alt (Lit zh_credential) (Alt (Lit (asc ''Invalid'')) (Lit (asc ''credential''))))))"

text \<open>
  \<open>login\<close> of the \<open>AuthProvider\<close>, with the credentials' two fields as arguments and
  \<open>JSON.stringify\<close> as the parameter \<open>stringify\<close>.  It returns the boolean, the session
  and the browser.  Every value the request layer throws is an \<open>Error\<close>, so \<open>rawMessage\<close>
  is its message.
\<close>

definition AuthProvider_login ::
  "(User \<Rightarrow> jsstring) \<Rightarrow> session \<Rightarrow> browser \<Rightarrow> jsstring \<Rightarrow> jsstring \<Rightarrow> AuthResponse fetch_outcome
     \<Rightarrow> bool \<times> session \<times> browser" where
  "AuthProvider_login stringify sess b username' password outcome =
     (let s1 = sess\<lparr>loading := True, session_error := None\<rparr> in
      case AuthService_login b username' password outcome of
        (Inr response, b1) \<Rightarrow>
          (True,
           s1\<lparr>session_user := Some (user response), session_isAuthenticated := True, loading := False\<rparr>,
           setItem ''userProfile'' (stringify (user response)) b1)
      | (Inl err, b1) \<Rightarrow>
          (let rawMessage = error_message err;
               normalized = (if test True loginPattern rawMessage then zh_invalid_credentials
                             else rawMessage)
           in (False, s1\<lparr>session_error := Some normalized, loading := False\<rparr>, b1)))"

section \<open>The OAuth redirect (\<open>AuthService.bootstrapFromHash\<close>)\<close>

text \<open>
  \<open>new URLSearchParams(init)\<close> and \<open>get\<close>, after the URL standard: a leading \<open>?\<close> is
  dropped and the string is encoded as UTF-8; the bytes are split at every \<open>&\<close>, empty
  pieces are skipped, each piece is split at its first \<open>=\<close>, \<open>+\<close> becomes a space, percent
  escapes are decoded, and name and value are decoded from UTF-8.
\<close>














definition truthyOpt :: "jsstring option \<Rightarrow> bool" where
  "truthyOpt v = (case v of None \<Rightarrow> False | Some s \<Rightarrow> truthy s)"




section \<open>The content list pipeline\<close>

text \<open>
  \<open>BlogPostData\<close> and \<open>PortfolioItemData\<close> (declared in \<open>types.ts\<close>), with the fields the
  pipeline reads.  A title or category key that is missing is the empty string, which the
  code treats like \<open>undefined\<close>; \<open>views\<close> may be missing.
\<close>

record BlogPostData =
  post_id :: jsstring
  title :: jsstring
  titleZh :: jsstring
  date :: jsstring
  categoryKey :: jsstring
  views :: "int option"

record PortfolioItemData =
  item_id :: jsstring
  item_title :: jsstring
  item_titleZh :: jsstring
  item_date :: jsstring
  item_categoryKey :: jsstring
  item_views :: "int option"

datatype SortOrder = date_desc | date_asc | title_asc | title_desc | views_desc | views_asc

datatype SortKey =
    key_date_desc | key_date_asc | key_views_desc | key_views_asc
  | key_title_asc | key_title_desc | key_category_asc | key_category_desc

text \<open>
  A number is an integer or \<open>NaN\<close> (\<open>None\<close>); \<open>new Date(s).getTime()\<close> is the parameter
  \<open>getTime\<close>, which is \<open>NaN\<close> on a string that is not a date.
\<close>

type_synonym number = "int option"

definition minus_number :: "number \<Rightarrow> number \<Rightarrow> number" where
  "minus_number x y = (case (x, y) of (Some a, Some b) \<Rightarrow> Some (a - b) | _ \<Rightarrow> None)"

text \<open>\<open>views || 0\<close>.\<close>

definition or0 :: "int option \<Rightarrow> number" where
  "or0 v = (case v of None \<Rightarrow> Some 0 | Some n \<Rightarrow> Some n)"

text \<open>
  \<open>a.localeCompare(b)\<close>.  The language standard requires it to be a consistent comparator
  that orders all strings totally, that is, the comparison of collation keys;
  \<open>collationKey\<close> is a parameter.
\<close>

definition localeCompare :: "(jsstring \<Rightarrow> 'k::linorder) \<Rightarrow> jsstring \<Rightarrow> jsstring \<Rightarrow> number" where
  "localeCompare collationKey a b =
     (if collationKey a < collationKey b then Some (- 1)
      else if collationKey a = collationKey b then Some 0
      else Some 1)"

text \<open>
  \<open>Array.prototype.sort(comparefn)\<close>.  A comparator result of \<open>NaN\<close> counts as \<open>+0\<close>
  (\<open>sortCompare\<close>).  The language standard fixes the result for a consistent comparator
  only: one that never yields \<open>NaN\<close> on the elements and, with \<open>a < b\<close>, \<open>a = b\<close> and
  \<open>a > b\<close> read off the sign of its result, makes \<open>=\<close> reflexive, symmetric and transitive
  and \<open><\<close> and \<open>>\<close> transitive.
\<close>

definition sortCompare :: "('a \<Rightarrow> 'a \<Rightarrow> number) \<Rightarrow> 'a \<Rightarrow> 'a \<Rightarrow> int" where
  "sortCompare comparefn x y = (case comparefn x y of None \<Rightarrow> 0 | Some v \<Rightarrow> v)"

definition consistentOn :: "('a \<Rightarrow> 'a \<Rightarrow> number) \<Rightarrow> 'a set \<Rightarrow> bool" where
  "consistentOn comparefn S =
     ((\<forall>a\<in>S. \<forall>b\<in>S. comparefn a b \<noteq> None)
      \<and> (\<forall>a\<in>S. sortCompare comparefn a a = 0)
      \<and> (\<forall>a\<in>S. \<forall>b\<in>S. sortCompare comparefn a b = 0 \<longrightarrow> sortCompare comparefn b a = 0)
      \<and> (\<forall>a\<in>S. \<forall>b\<in>S. \<forall>c\<in>S. sortCompare comparefn a b = 0 \<and> sortCompare comparefn b c = 0
            \<longrightarrow> sortCompare comparefn a c = 0)
      \<and> (\<forall>a\<in>S. \<forall>b\<in>S. \<forall>c\<in>S. sortCompare comparefn a b < 0 \<and> sortCompare comparefn b c < 0
            \<longrightarrow> sortCompare comparefn a c < 0)
      \<and> (\<forall>a\<in>S. \<forall>b\<in>S. \<forall>c\<in>S. sortCompare comparefn a b > 0 \<and> sortCompare comparefn b c > 0
            \<longrightarrow> sortCompare comparefn a c > 0))"

text \<open>
  What the standard asks of the result \<open>new\<close> for the array \<open>old\<close>: it is a permutation, no
  element stands before one that compares less than it, and the elements that compare
  equal keep their order.
\<close>

definition stableSortOf :: "('a \<Rightarrow> 'a \<Rightarrow> number) \<Rightarrow> 'a list \<Rightarrow> 'a list \<Rightarrow> bool" where
  "stableSortOf comparefn old new =
     (mset new = mset old
      \<and> sorted_wrt (\<lambda>a b. \<not> sortCompare comparefn b a < 0) new
      \<and> (\<forall>x\<in>set old. filter (\<lambda>y. sortCompare comparefn x y = 0) new
                        = filter (\<lambda>y. sortCompare comparefn x y = 0) old))"

text \<open>
  The sort of the engine is a parameter \<open>sortImpl\<close> of the pipeline.  It meets the
  standard when its result is a permutation for every comparator and the stable sorted
  order for a consistent one; for any other comparator the standard leaves the order to
  the implementation.
\<close>

definition conforming :: "(('a \<Rightarrow> 'a \<Rightarrow> number) \<Rightarrow> 'a list \<Rightarrow> 'a list) \<Rightarrow> bool" where
  "conforming sortImpl =
     ((\<forall>comparefn xs. mset (sortImpl comparefn xs) = mset xs)
      \<and> (\<forall>comparefn xs. consistentOn comparefn (set xs)
            \<longrightarrow> stableSortOf comparefn xs (sortImpl comparefn xs)))"

text \<open>
  Two sorts that meet it.  The merge sort halves the array, sorts the halves and merges
  them, taking from the left half unless its element compares greater.  The insertion
  sort inserts each element, from the last to the first, before the first element it does
  not compare greater than.
\<close>

fun mergeRuns :: "('a \<Rightarrow> 'a \<Rightarrow> number) \<Rightarrow> 'a list \<Rightarrow> 'a list \<Rightarrow> 'a list" where
  "mergeRuns comparefn [] ys = ys"
| "mergeRuns comparefn (x # xs) [] = x # xs"
| "mergeRuns comparefn (x # xs) (y # ys) =
     (if sortCompare comparefn x y \<le> 0 then x # mergeRuns comparefn xs (y # ys)
      else y # mergeRuns comparefn (x # xs) ys)"

function mergeSort :: "('a \<Rightarrow> 'a \<Rightarrow> number) \<Rightarrow> 'a list \<Rightarrow> 'a list" where
  "mergeSort comparefn xs =
     (if length xs \<le> 1 then xs
      else mergeRuns comparefn (mergeSort comparefn (take (length xs div 2) xs))
                               (mergeSort comparefn (drop (length xs div 2) xs)))"
  by pat_completeness auto
termination
  by (relation "measure (\<lambda>(comparefn, xs). length xs)") auto

declare mergeSort.simps [simp del]

fun insertSorted :: "('a \<Rightarrow> 'a \<Rightarrow> number) \<Rightarrow> 'a \<Rightarrow> 'a list \<Rightarrow> 'a list" where
  "insertSorted comparefn x [] = [x]"
| "insertSorted comparefn x (y # ys) =
     (if sortCompare comparefn x y \<le> 0 then x # y # ys else y # insertSorted comparefn x ys)"

definition insertionSort :: "('a \<Rightarrow> 'a \<Rightarrow> number) \<Rightarrow> 'a list \<Rightarrow> 'a list" where
  "insertionSort comparefn xs = foldr (insertSorted comparefn) xs []"

text \<open>The comparator of \<open>processedPosts\<close> (\<open>PostManagementPage\<close>).\<close>

definition postTitle :: "jsstring \<Rightarrow> BlogPostData \<Rightarrow> jsstring" where
  "postTitle lang a = (if lang = asc ''zh-Hant'' \<and> truthy (titleZh a) then titleZh a else title a)"

definition comparePosts ::
  "(jsstring \<Rightarrow> number) \<Rightarrow> (jsstring \<Rightarrow> 'k::linorder) \<Rightarrow> jsstring \<Rightarrow> SortOrder
     \<Rightarrow> BlogPostData \<Rightarrow> BlogPostData \<Rightarrow> number" where
  "comparePosts getTime collationKey lang sortOrder a b =
     (let titleA = postTitle lang a; titleB = postTitle lang b in
      case sortOrder of
        date_asc \<Rightarrow> minus_number (getTime (date a)) (getTime (date b))
      | title_asc \<Rightarrow> localeCompare collationKey titleA titleB
      | title_desc \<Rightarrow> localeCompare collationKey titleB titleA
      | views_desc \<Rightarrow> minus_number (or0 (views b)) (or0 (views a))
      | views_asc \<Rightarrow> minus_number (or0 (views a)) (or0 (views b))
      | date_desc \<Rightarrow> minus_number (getTime (date b)) (getTime (date a)))"

text \<open>
  \<open>processedPosts\<close>: the category filter, then the sort.  \<open>blogCategoryDefinitions\<close>
  (declared in \<open>blogData\<close>) is the parameter \<open>defs\<close>, a list of \<open>titleKey\<close> and
  \<open>categoryKeys\<close>.
\<close>

definition filterPosts ::
  "(jsstring \<times> jsstring list) list \<Rightarrow> jsstring \<Rightarrow> BlogPostData list \<Rightarrow> BlogPostData list" where
  "filterPosts defs filterCategory posts =
     (if filterCategory \<noteq> asc ''all'' then
        (case find (\<lambda>def. fst def = filterCategory) defs of
           Some activeCategoryDef \<Rightarrow>
             filter (\<lambda>post. truthy (categoryKey post) \<and> categoryKey post \<in> set (snd activeCategoryDef)) posts
         | None \<Rightarrow> posts)
      else posts)"

definition processedPosts ::
  "((BlogPostData \<Rightarrow> BlogPostData \<Rightarrow> number) \<Rightarrow> BlogPostData list \<Rightarrow> BlogPostData list)
     \<Rightarrow> (jsstring \<Rightarrow> number) \<Rightarrow> (jsstring \<Rightarrow> 'k::linorder) \<Rightarrow> jsstring \<Rightarrow> (jsstring \<times> jsstring list) list
     \<Rightarrow> jsstring \<Rightarrow> SortOrder \<Rightarrow> BlogPostData list \<Rightarrow> BlogPostData list" where
  "processedPosts sortImpl getTime collationKey lang defs filterCategory sortOrder posts =
     sortImpl (comparePosts getTime collationKey lang sortOrder) (filterPosts defs filterCategory posts)"

text \<open>
  The comparator of \<open>sortedItems\<close> (\<open>PortfolioPage\<close>); the translation function \<open>t\<close> of
  \<open>i18n\<close> is a parameter.
\<close>

definition itemTitle :: "jsstring \<Rightarrow> PortfolioItemData \<Rightarrow> jsstring" where
  "itemTitle lang a =
     (if lang = asc ''zh-Hant'' \<and> truthy (item_titleZh a) then item_titleZh a
      else if truthy (item_title a) then item_title a else item_id a)"

definition itemTime :: "(jsstring \<Rightarrow> number) \<Rightarrow> PortfolioItemData \<Rightarrow> number" where
  "itemTime getTime a = (if truthy (item_date a) then getTime (item_date a) else Some 0)"

definition compareItems ::
  "(jsstring \<Rightarrow> number) \<Rightarrow> (jsstring \<Rightarrow> 'k::linorder) \<Rightarrow> (jsstring \<Rightarrow> jsstring) \<Rightarrow> jsstring \<Rightarrow> SortKey
     \<Rightarrow> PortfolioItemData \<Rightarrow> PortfolioItemData \<Rightarrow> number" where
  "compareItems getTime collationKey t lang sortKey a b =
     (let titleA = itemTitle lang a; titleB = itemTitle lang b;
          categoryA = t (item_categoryKey a); categoryB = t (item_categoryKey b) in
      case sortKey of
        key_date_asc \<Rightarrow> minus_number (itemTime getTime a) (itemTime getTime b)
      | key_title_asc \<Rightarrow> localeCompare collationKey titleA titleB
      | key_title_desc \<Rightarrow> localeCompare collationKey titleB titleA
      | key_category_asc \<Rightarrow> localeCompare collationKey categoryA categoryB
      | key_category_desc \<Rightarrow> localeCompare collationKey categoryB categoryA
      | key_views_desc \<Rightarrow> minus_number (or0 (item_views b)) (or0 (item_views a))
      | key_views_asc \<Rightarrow> minus_number (or0 (item_views a)) (or0 (item_views b))
      | key_date_desc \<Rightarrow> minus_number (itemTime getTime b) (itemTime getTime a))"

definition allPortfolioItems ::
  "((PortfolioItemData \<Rightarrow> PortfolioItemData \<Rightarrow> number) \<Rightarrow> PortfolioItemData list \<Rightarrow> PortfolioItemData list)
     \<Rightarrow> (jsstring \<Rightarrow> number) \<Rightarrow> PortfolioItemData list \<Rightarrow> PortfolioItemData list" where
  "allPortfolioItems sortImpl getTime userAddedPortfolioItems =
     sortImpl (\<lambda>a b. minus_number (itemTime getTime b) (itemTime getTime a)) userAddedPortfolioItems"

definition sortedItems ::
  "((PortfolioItemData \<Rightarrow> PortfolioItemData \<Rightarrow> number) \<Rightarrow> PortfolioItemData list \<Rightarrow> PortfolioItemData list)
     \<Rightarrow> (jsstring \<Rightarrow> number) \<Rightarrow> (jsstring \<Rightarrow> 'k::linorder) \<Rightarrow> (jsstring \<Rightarrow> jsstring) \<Rightarrow> jsstring \<Rightarrow> SortKey
     \<Rightarrow> PortfolioItemData list \<Rightarrow> PortfolioItemData list" where
  "sortedItems sortImpl getTime collationKey t lang sortKey items =
     sortImpl (compareItems getTime collationKey t lang sortKey) items"

text \<open>
  \<open>Array.prototype.slice(start, end)\<close> on integers: a negative index counts from the
  end, and both are clamped to the array.
\<close>

definition slice :: "'a list \<Rightarrow> int \<Rightarrow> int \<Rightarrow> 'a list" where
  "slice xs start end' =
     (let len = int (length xs);
          k = (if start < 0 then max (len + start) 0 else min start len);
          final = (if end' < 0 then max (len + end') 0 else min end' len)
      in take (nat (final - k)) (drop (nat k) xs))"

text \<open>\<open>paginatedPosts\<close>.\<close>

definition paginatedPosts :: "'a list \<Rightarrow> int \<Rightarrow> int \<Rightarrow> 'a list" where
  "paginatedPosts processed currentPage itemsPerPage =
     (let startIndex = (currentPage - 1) * itemsPerPage
      in slice processed startIndex (startIndex + itemsPerPage))"

section \<open>The content handlers of \<open>App\<close>\<close>

text \<open>\<open>Comment\<close> (declared in \<open>types.ts\<close>); \<open>parentId\<close> is a string or \<open>null\<close>.\<close>

record Comment =
  comment_id :: jsstring
  postId :: jsstring
  text' :: jsstring
  parentId :: "jsstring option"

text \<open>
  The state of \<open>App\<close> that the handlers touch: the three collections, the browser, the
  path given to \<open>navigate\<close> and the messages shown with \<open>alert\<close>, oldest first.
\<close>

record app =
  userAddedPosts :: "BlogPostData list"
  userAddedPortfolioItems :: "PortfolioItemData list"
  allComments :: "Comment list"
  app_browser :: browser
  navigated :: "jsstring option"
  alerts :: "jsstring list"

text \<open>\<open>Array.prototype.findIndex\<close>, with \<open>None\<close> for \<open>-1\<close>.\<close>

fun findIndex :: "('a \<Rightarrow> bool) \<Rightarrow> 'a list \<Rightarrow> nat option" where
  "findIndex P [] = None"
| "findIndex P (x # xs) = (if P x then Some 0 else map_option Suc (findIndex P xs))"

definition handleSaveBlogPost :: "bool \<Rightarrow> BlogPostData \<Rightarrow> app \<Rightarrow> app" where
  "handleSaveBlogPost isSuperUser' postData a =
     (if \<not> isSuperUser' then a
      else a\<lparr>userAddedPosts :=
                (let p = userAddedPosts a in
                 case findIndex (\<lambda>item. post_id item = post_id postData) p of
                   Some i \<Rightarrow> p[i := postData]
                 | None \<Rightarrow> postData # p),
              navigated := Some (asc ''/blog/'' @ post_id postData)\<rparr>)"

definition handleAddBlogPost :: "bool \<Rightarrow> BlogPostData \<Rightarrow> app \<Rightarrow> app" where
  "handleAddBlogPost isSuperUser' postData a =
     (if \<not> isSuperUser' then a
      else a\<lparr>userAddedPosts := postData # userAddedPosts a\<rparr>)"

text \<open>
  \<open>Promise.all(ids.map(id => ApiService.request(prefix + id, {method: 'DELETE'})))\<close>:
  every request is sent, in the order of \<open>ids\<close>; the result tells whether all of them
  succeeded.  \<open>outcome\<close> gives what the request for an id meets.
\<close>

fun deleteAll :: "jsstring \<Rightarrow> (jsstring \<Rightarrow> 'r fetch_outcome) \<Rightarrow> jsstring list \<Rightarrow> browser \<Rightarrow> bool \<times> browser" where
  "deleteAll prefix outcome [] b = (True, b)"
| "deleteAll prefix outcome (i # ids) b =
     (case request b ''DELETE'' (prefix @ i) (outcome i) of
        (r, b1) \<Rightarrow>
          (case deleteAll prefix outcome ids b1 of
             (ok, b2) \<Rightarrow> ((case r of Inl e \<Rightarrow> False | Inr v \<Rightarrow> ok), b2)))"

definition handleDeleteBlogPosts ::
  "bool \<Rightarrow> (jsstring \<Rightarrow> 'r fetch_outcome) \<Rightarrow> jsstring list \<Rightarrow> app \<Rightarrow> app" where
  "handleDeleteBlogPosts isSuperUser' outcome ids a =
     (if \<not> isSuperUser' then a
      else
        (case deleteAll (asc ''/content/posts/'') outcome ids (app_browser a) of
           (True, b1) \<Rightarrow>
             a\<lparr>userAddedPosts := filter (\<lambda>post. post_id post \<notin> set ids) (userAddedPosts a),
               app_browser := b1\<rparr>
         | (False, b1) \<Rightarrow>
             a\<lparr>app_browser := b1, alerts := alerts a @ [zh_delete_posts_failed]\<rparr>))"

definition handleAddPortfolioItem :: "bool \<Rightarrow> PortfolioItemData \<Rightarrow> app \<Rightarrow> app" where
  "handleAddPortfolioItem isSuperUser' item a =
     (if \<not> isSuperUser' then a
      else a\<lparr>userAddedPortfolioItems := item # userAddedPortfolioItems a\<rparr>)"

definition handleUpdatePortfolioItem :: "bool \<Rightarrow> PortfolioItemData \<Rightarrow> app \<Rightarrow> app" where
  "handleUpdatePortfolioItem isSuperUser' item a =
     (if \<not> isSuperUser' then a
      else a\<lparr>userAddedPortfolioItems :=
                map (\<lambda>i. if item_id i = item_id item then item else i) (userAddedPortfolioItems a)\<rparr>)"

definition handleDeletePortfolioItems ::
  "bool \<Rightarrow> (jsstring \<Rightarrow> 'r fetch_outcome) \<Rightarrow> jsstring list \<Rightarrow> app \<Rightarrow> app" where
  "handleDeletePortfolioItems isSuperUser' outcome ids a =
     (if \<not> isSuperUser' then a
      else
        (case deleteAll (asc ''/content/portfolio/'') outcome ids (app_browser a) of
           (True, b1) \<Rightarrow>
             a\<lparr>userAddedPortfolioItems := filter (\<lambda>i. item_id i \<notin> set ids) (userAddedPortfolioItems a),
               app_browser := b1\<rparr>
         | (False, b1) \<Rightarrow>
             a\<lparr>app_browser := b1, alerts := alerts a @ [zh_delete_items_failed]\<rparr>))"

text \<open>
  \<open>findChildren\<close> of \<open>handleDeleteComment\<close>, which adds to the set \<open>toDelete\<close>.  It calls
  itself once for every reply, with no check of what it has visited, so it need not
  return.  The first argument is the number of nested calls the stack still has room for;
  \<open>None\<close> is the stack overflow.  \<open>forEachChild\<close> is the \<open>forEach\<close> over the replies found.
\<close>

fun findChildren :: "nat \<Rightarrow> Comment list \<Rightarrow> jsstring \<Rightarrow> jsstring set \<Rightarrow> jsstring set option"
  and forEachChild :: "nat \<Rightarrow> Comment list \<Rightarrow> Comment list \<Rightarrow> jsstring set \<Rightarrow> jsstring set option" where
  "findChildren 0 p parentId' toDelete = None"
| "findChildren (Suc depth) p parentId' toDelete =
     forEachChild depth p (filter (\<lambda>c. parentId c = Some parentId') p) toDelete"
| "forEachChild depth p [] toDelete = Some toDelete"
| "forEachChild depth p (c # cs) toDelete =
     (case findChildren depth p (comment_id c) (insert (comment_id c) toDelete) of
        None \<Rightarrow> None
      | Some toDelete' \<Rightarrow> forEachChild depth p cs toDelete')"

text \<open>
  \<open>handleDeleteComment\<close>; \<open>stack\<close> is the depth available to \<open>findChildren\<close>, and the
  result is \<open>None\<close> when the state updater overflows the stack.
\<close>

definition handleDeleteComment :: "bool \<Rightarrow> nat \<Rightarrow> 'r fetch_outcome \<Rightarrow> jsstring \<Rightarrow> app \<Rightarrow> app option" where
  "handleDeleteComment isSuperUser' stack outcome i a =
     (if \<not> isSuperUser' then Some a
      else
        (case request (app_browser a) ''DELETE'' (asc ''/comments/'' @ i) outcome of
           (Inl e, b1) \<Rightarrow>
             Some (a\<lparr>app_browser := b1, alerts := alerts a @ [zh_delete_comment_failed]\<rparr>)
         | (Inr v, b1) \<Rightarrow>
             (let p = allComments a in
              case findChildren stack p i {i} of
                None \<Rightarrow> None
              | Some toDelete \<Rightarrow>
                  Some (a\<lparr>allComments := filter (\<lambda>c. comment_id c \<notin> toDelete) p,
                          app_browser := b1\<rparr>))))"

text \<open>
  The replies below a comment: every comment whose chain of \<open>parentId\<close> leads to it.
\<close>

inductive_set descendants :: "Comment list \<Rightarrow> jsstring \<Rightarrow> jsstring set"
  for p :: "Comment list" and root :: jsstring where
  child: "c \<in> set p \<Longrightarrow> parentId c = Some root \<Longrightarrow> comment_id c \<in> descendants p root"
| grandchild: "c \<in> set p \<Longrightarrow> parentId c = Some x \<Longrightarrow> x \<in> descendants p root
     \<Longrightarrow> comment_id c \<in> descendants p root"

section \<open>Example inputs\<close>

text \<open>A user of role \<open>USER\<close> whose name is \<open>admin\<close>.\<close>

definition admin_named_user :: User where
  "admin_named_user = \<lparr>user_id = asc ''7'', username = asc ''admin'', email = asc ''a@example.org'',
     avatarUrl = [], role = USER, createdAt = [], updatedAt = []\<rparr>"

text \<open>
  A browser holding both tokens, the cached profile and the provider, with the language
  \<open>en\<close>; a browser with an empty store, on the login page; an anonymous session; an
  error body without fields; a 401 response.
\<close>

definition signed_in_browser :: browser where
  "signed_in_browser =
     \<lparr>localStorage = [''authToken'' \<mapsto> asc ''abc'', ''refreshToken'' \<mapsto> asc ''xyz'',
                       ''userProfile'' \<mapsto> asc ''{}'', ''authProvider'' \<mapsto> asc ''local''],
      window_location = \<lparr>pathname = asc ''/'', search = [], hash = []\<rparr>,
      language = asc ''en'',
      fetched = []\<rparr>"

definition anonymous_browser :: browser where
  "anonymous_browser =
     \<lparr>localStorage = Map.empty,
      window_location = \<lparr>pathname = asc ''/login'', search = [], hash = []\<rparr>,
      language = asc ''en'',
      fetched = []\<rparr>"

definition anonymous_session :: session where
  "anonymous_session =
     \<lparr>session_user = None, session_isAuthenticated = False, loading = False, session_error = None\<rparr>"

definition no_error_data :: error_data where
  "no_error_data = \<lparr>data_message = [], data_error = [], data_details = []\<rparr>"

definition unauthorized :: "unit fetch_outcome" where
  "unauthorized = Respond 401 (asc ''Unauthorized'') no_error_data (Inl [])"

text \<open>
  The server's answers to a failed login: 401 with the message of wrong credentials, and
  401 with the message that the user name does not exist.
\<close>

definition wrong_password_response :: "AuthResponse fetch_outcome" where
  "wrong_password_response =
     Respond 401 (asc ''Unauthorized'')
       \<lparr>data_message = zh_invalid_credentials, data_error = [], data_details = []\<rparr> (Inl [])"

definition unknown_user_response :: "AuthResponse fetch_outcome" where
  "unknown_user_response =
     Respond 401 (asc ''Unauthorized'')
       \<lparr>data_message = zh_username_not_exist, data_error = [], data_details = []\<rparr> (Inl [])"


text \<open>Three posts, two of them with the same number of views.\<close>

definition post_a :: BlogPostData where
  "post_a = \<lparr>post_id = asc ''a'', title = asc ''Harbour'', titleZh = [], date = asc ''2024-01-01'',
     categoryKey = asc ''photo'', views = Some 5\<rparr>"

definition post_b :: BlogPostData where
  "post_b = \<lparr>post_id = asc ''b'', title = asc ''Sky'', titleZh = [], date = asc ''2024-01-01T10:00'',
     categoryKey = asc ''photo'', views = None\<rparr>"

definition post_c :: BlogPostData where
  "post_c = \<lparr>post_id = asc ''c'', title = asc ''Hill'', titleZh = [], date = [],
     categoryKey = asc ''travel'', views = Some 5\<rparr>"

text \<open>
  Eight posts, the third of them without a date, and the times \<open>new Date(s).getTime()\<close>
  gives for the seven dates; this stand-in yields \<open>NaN\<close> for the empty string, as the
  platform does, and for every string other than the seven.
\<close>

definition calendar :: "(jsstring \<times> int) list" where
  "calendar =
     [(asc ''2024-01-01'', 1704067200000),
      (asc ''2024-01-05'', 1704412800000),
      (asc ''2024-01-06'', 1704499200000),
      (asc ''2024-01-07'', 1704585600000),
      (asc ''2024-01-08'', 1704672000000),
      (asc ''2024-01-09'', 1704758400000),
      (asc ''2024-01-10'', 1704844800000)]"

definition calendar_getTime :: "jsstring \<Rightarrow> number" where
  "calendar_getTime s = map_of calendar s"

definition dated_post :: "string \<Rightarrow> string \<Rightarrow> BlogPostData" where
  "dated_post i d = \<lparr>post_id = asc i, title = asc ''Note'', titleZh = [], date = asc d,
     categoryKey = asc ''photo'', views = None\<rparr>"

definition eight_posts :: "BlogPostData list" where
  "eight_posts =
     [dated_post ''p1'' ''2024-01-01'', dated_post ''p9'' ''2024-01-09'',
      dated_post ''p0'' [], dated_post ''p5'' ''2024-01-05'',
      dated_post ''p6'' ''2024-01-06'', dated_post ''p7'' ''2024-01-07'',
      dated_post ''p8'' ''2024-01-08'', dated_post ''p10'' ''2024-01-10'']"

text \<open>
  A signed-in user who is no super user; a portfolio item; six comments, of which the
  second and the fifth answer the first, the third answers the second and the sixth
  answers the fourth; the state of \<open>App\<close> with them; a response to a \<open>DELETE\<close> request
  that succeeds with an empty body.
\<close>

definition ordinary_user :: User where
  "ordinary_user = \<lparr>user_id = asc ''8'', username = asc ''bob'', email = asc ''b@example.org'',
     avatarUrl = [], role = USER, createdAt = [], updatedAt = []\<rparr>"

definition reply :: "string \<Rightarrow> string option \<Rightarrow> Comment" where
  "reply i parent = \<lparr>comment_id = asc i, postId = asc ''a'', text' = asc ''hello'',
     parentId = map_option asc parent\<rparr>"

definition example_comments :: "Comment list" where
  "example_comments =
     [reply ''1'' None, reply ''2'' (Some ''1''), reply ''3'' (Some ''2''),
      reply ''4'' None, reply ''5'' (Some ''1''), reply ''6'' (Some ''4'')]"

definition example_item :: PortfolioItemData where
  "example_item = \<lparr>item_id = asc ''i'', item_title = asc ''Dunes'', item_titleZh = [],
     item_date = asc ''2024-02-02'', item_categoryKey = asc ''travel'', item_views = Some 2\<rparr>"

definition example_app :: app where
  "example_app =
     \<lparr>userAddedPosts = [post_a, post_b, post_c],
      userAddedPortfolioItems = [example_item],
      allComments = example_comments,
      app_browser = signed_in_browser,
      navigated = None,
      alerts = []\<rparr>"

definition deleted_response :: "unit fetch_outcome" where
  "deleted_response = Respond 204 (asc ''No Content'') no_error_data (Inr ())"

section \<open>The matcher\<close>

lemma nullable_rx_lang: "nullable r \<longleftrightarrow> [] \<in> rx_lang ic r"
  by (induction r) (auto simp: conc_def intro: star.empty)

lemma rx_lang_seq: "rx_lang ic (seq r s) = conc (rx_lang ic r) (rx_lang ic s)"
  by (auto simp: seq_def conc_def)

lemma rx_lang_alt: "rx_lang ic (alt r s) = rx_lang ic r \<union> rx_lang ic s"
  by (auto simp: alt_def)

lemma star_Cons:
  "c # w \<in> star A \<longleftrightarrow> (\<exists>u v. w = u @ v \<and> c # u \<in> A \<and> v \<in> star A)"
proof
  assume "c # w \<in> star A"
  then show "\<exists>u v. w = u @ v \<and> c # u \<in> A \<and> v \<in> star A"
  proof (induction "c # w" arbitrary: w rule: star.induct)
    case (step u v)
    show ?case
    proof (cases u)
      case Nil
      with step show ?thesis by simp
    next
      case (Cons d u')
      with step.hyps show ?thesis by auto
    qed
  qed
next
  assume "\<exists>u v. w = u @ v \<and> c # u \<in> A \<and> v \<in> star A"
  then obtain u v where "w = u @ v" "c # u \<in> A" "v \<in> star A" by blast
  then show "c # w \<in> star A"
    using star.step [of "c # u" A v] by simp
qed

lemma conc_Cons:
  "c # w \<in> conc A B \<longleftrightarrow>
     (\<exists>u v. w = u @ v \<and> c # u \<in> A \<and> v \<in> B) \<or> ([] \<in> A \<and> c # w \<in> B)"
  by (auto simp: conc_def Cons_eq_append_conv)

lemma rx_lang_deriv: "w \<in> rx_lang ic (deriv ic c r) \<longleftrightarrow> c # w \<in> rx_lang ic r"
proof (induction r arbitrary: w)
  case (Lit s)
  show ?case by (cases s) auto
next
  case (Seq r s)
  show ?case
    by (auto simp: rx_lang_seq rx_lang_alt conc_Cons Seq nullable_rx_lang [of r ic])
       (auto simp: conc_def Seq)
next
  case (Alt r s)
  then show ?case by (simp add: rx_lang_alt)
next
  case (Star r)
  show ?case
    by (auto simp: rx_lang_seq star_Cons Star conc_def)
qed auto

text \<open>
  The matcher is right: \<open>matchesPrefix\<close> holds when some prefix of the string is in the
  language of the pattern, and \<open>test\<close> when some substring is.
\<close>

lemma matchesPrefix_lang:
  "matchesPrefix ic r s \<longleftrightarrow> (\<exists>u v. s = u @ v \<and> u \<in> rx_lang ic r)"
proof (induction s arbitrary: r)
  case Nil
  show ?case by (simp add: nullable_rx_lang [of r ic])
next
  case (Cons c cs)
  have "(\<exists>u v. c # cs = u @ v \<and> u \<in> rx_lang ic r) \<longleftrightarrow>
        [] \<in> rx_lang ic r \<or> (\<exists>u v. cs = u @ v \<and> c # u \<in> rx_lang ic r)"
    by (auto simp: Cons_eq_append_conv)
  moreover have "r = Null \<Longrightarrow> \<not> (\<exists>u v. cs = u @ v \<and> c # u \<in> rx_lang ic r)"
    by simp
  ultimately show ?case
    by (auto simp: Cons rx_lang_deriv nullable_rx_lang [of r ic])
qed

lemma test_lang:
  "test ic r s \<longleftrightarrow> (\<exists>p u v. s = p @ u @ v \<and> u \<in> rx_lang ic r)"
proof (induction s)
  case Nil
  show ?case by (simp add: nullable_rx_lang [of r ic])
next
  case (Cons c cs)
  have "(\<exists>p u v. c # cs = p @ u @ v \<and> u \<in> rx_lang ic r) \<longleftrightarrow>
        (\<exists>u v. c # cs = u @ v \<and> u \<in> rx_lang ic r) \<or> (\<exists>p u v. cs = p @ u @ v \<and> u \<in> rx_lang ic r)"
  proof
    assume "\<exists>p u v. c # cs = p @ u @ v \<and> u \<in> rx_lang ic r"
    then obtain p u v where e: "c # cs = p @ u @ v" and u: "u \<in> rx_lang ic r" by blast
    show "(\<exists>u v. c # cs = u @ v \<and> u \<in> rx_lang ic r) \<or> (\<exists>p u v. cs = p @ u @ v \<and> u \<in> rx_lang ic r)"
    proof (cases p)
      case Nil
      with e u show ?thesis by auto
    next
      case (Cons d p')
      with e u show ?thesis by auto
    qed
  next
    assume "(\<exists>u v. c # cs = u @ v \<and> u \<in> rx_lang ic r) \<or> (\<exists>p u v. cs = p @ u @ v \<and> u \<in> rx_lang ic r)"
    then show "\<exists>p u v. c # cs = p @ u @ v \<and> u \<in> rx_lang ic r"
    proof
      assume "\<exists>u v. c # cs = u @ v \<and> u \<in> rx_lang ic r"
      then obtain u v where "c # cs = [] @ u @ v" "u \<in> rx_lang ic r" by auto
      then show ?thesis by blast
    next
      assume "\<exists>p u v. cs = p @ u @ v \<and> u \<in> rx_lang ic r"
      then obtain p u v where "c # cs = (c # p) @ u @ v" "u \<in> rx_lang ic r" by auto
      then show ?thesis by blast
    qed
  qed
  then show ?case
    using Cons matchesPrefix_lang [of ic r "c # cs"] by simp
qed

section \<open>The role gate\<close>

text \<open>
  C1.  \<open>isSuperUser\<close> is \<open>isAuthenticated\<close> and (role \<open>ADMIN\<close>, or role \<open>SUPER_USER\<close>, or the
  user name \<open>admin\<close>).  So an authenticated user of role \<open>USER\<close> named \<open>admin\<close> is a super
  user, and no unauthenticated session is one, whatever its user record.
\<close>

theorem isSuperUser_role_gate:
  "isSuperUser authenticated (Some u) =
     (authenticated \<and> (role u = ADMIN \<or> role u = SUPER_USER \<or> username u = asc ''admin''))
   \<and> (role u = USER \<and> username u = asc ''admin'' \<longrightarrow> isSuperUser True (Some u))
   \<and> \<not> isSuperUser False usr"
  by (auto simp: isSuperUser_def)

theorem isSuperUser_role_gate_witness:
  "role admin_named_user = USER \<and> username admin_named_user = asc ''admin''
   \<and> isSuperUser True (Some admin_named_user) \<and> \<not> isSuperUser False (Some admin_named_user)"
  using isSuperUser_role_gate [of True admin_named_user "Some admin_named_user"]
  by (simp add: admin_named_user_def)

section \<open>The request layer and the token store\<close>

lemma getItem_removeItem: "getItem (removeItem k b) k' = (if k' = k then None else getItem b k')"
  by (simp add: getItem_def removeItem_def)

lemma fetched_removeItem: "fetched (removeItem k b) = fetched b"
  by (simp add: removeItem_def)

lemma fetched_request:
  "fetched (snd (request b method endpoint outcome)) = fetched b @ [(method, endpoint)]"
  by (simp add: request_def fetch_sent_def request_settle_def Let_def removeToken_def removeItem_def split: fetch_outcome.split sum.split)

lemma localStorage_request:
  "localStorage (snd (request b method endpoint outcome)) =
     (case outcome of
        Respond status statusText errorData parsed \<Rightarrow>
          if status = 401 then (localStorage b)(''authToken'' := None) else localStorage b
      | Reject m \<Rightarrow> localStorage b)"
  by (simp add: request_def fetch_sent_def request_settle_def Let_def removeToken_def removeItem_def response_ok_def
      split: fetch_outcome.split sum.split)

text \<open>
  C2.  After \<open>logout()\<close>, whatever the request to the server met (a response of any
  status, or a network failure), the store holds no access token, no refresh token and no
  cached profile; the request was sent first.
\<close>

theorem logout_clears_storage:
  "getItem (AuthService_logout b outcome) ''authToken'' = None
   \<and> getItem (AuthService_logout b outcome) ''refreshToken'' = None
   \<and> getItem (AuthService_logout b outcome) ''userProfile'' = None
   \<and> fetched (AuthService_logout b outcome) = fetched b @ [(''POST'', asc ''/auth/logout'')]"
  by (simp add: AuthService_logout_def logout_finally_def getItem_removeItem fetched_removeItem fetched_request)

theorem logout_clears_storage_witness:
  "getItem signed_in_browser ''authToken'' = Some (asc ''abc'')
   \<and> getItem (AuthService_logout signed_in_browser (Reject (asc ''Failed to fetch'') :: unit fetch_outcome)) ''authToken'' = None
   \<and> getItem (AuthService_logout signed_in_browser (Reject (asc ''Failed to fetch'') :: unit fetch_outcome)) ''refreshToken'' = None
   \<and> getItem (AuthService_logout signed_in_browser (Reject (asc ''Failed to fetch'') :: unit fetch_outcome)) ''userProfile'' = None"
  using logout_clears_storage [of signed_in_browser "Reject (asc ''Failed to fetch'') :: unit fetch_outcome"]
  by (simp add: signed_in_browser_def getItem_def)

text \<open>
  C3, as stated, fails: a request that meets a 401 leaves the refresh token and the cached
  profile in the store.
\<close>

theorem request_401_keeps_refresh_token:
  "AuthService_isAuthenticated signed_in_browser
   \<and> getItem (snd (request signed_in_browser ''GET'' (asc ''/auth/me'') unauthorized)) ''refreshToken''
       = Some (asc ''xyz'')
   \<and> getItem (snd (request signed_in_browser ''GET'' (asc ''/auth/me'') unauthorized)) ''userProfile''
       = Some (asc ''{}'')"
  by (simp add: getItem_def localStorage_request unauthorized_def signed_in_browser_def
      AuthService_isAuthenticated_def truthy_def asc_def)

text \<open>
  C3, amended.  A request that meets a 401 removes the access token from the store, and
  nothing else; it rejects with the \<open>ApiError\<close> of that status, and \<open>isAuthenticated()\<close> is
  false afterwards.
\<close>

theorem request_401_removes_access_token:
  "localStorage (snd (request b method endpoint (Respond 401 statusText errorData parsed))) =
     (localStorage b)(''authToken'' := None)
   \<and> \<not> AuthService_isAuthenticated (snd (request b method endpoint (Respond 401 statusText errorData parsed)))
   \<and> fst (request b method endpoint (Respond 401 statusText errorData parsed)) =
       Inl (ApiError (translateServerMessage (language b) (rawMessage 401 statusText errorData)) 401 errorData)"
  by (simp add: localStorage_request AuthService_isAuthenticated_def getItem_def)
     (simp add: request_def fetch_sent_def request_settle_def response_ok_def Let_def)

theorem request_401_removes_access_token_witness:
  "AuthService_isAuthenticated signed_in_browser
   \<and> \<not> AuthService_isAuthenticated (snd (request signed_in_browser ''GET'' (asc ''/auth/me'') unauthorized))
   \<and> getItem (snd (request signed_in_browser ''GET'' (asc ''/auth/me'') unauthorized)) ''authToken'' = None"
  using request_401_removes_access_token [of signed_in_browser "''GET''" "asc ''/auth/me''"
      "asc ''Unauthorized''" no_error_data "Inl [] :: jsstring + unit"]
  by (simp add: unauthorized_def getItem_def signed_in_browser_def AuthService_isAuthenticated_def
      truthy_def asc_def)

lemma logout_keys:
  "localStorage (AuthService_logout b outcome) k =
     (if k \<in> {''authToken'', ''refreshToken'', ''userProfile'', ''authProvider''} then None
      else localStorage b k)"
  by (auto simp add: AuthService_logout_def logout_finally_def removeItem_def localStorage_request
      split: fetch_outcome.split)

lemma request_error_response:
  "\<not> response_ok status \<Longrightarrow>
   request b method endpoint (Respond status statusText errorData parsed) =
     (Inl (ApiError (translateServerMessage (language b) (rawMessage status statusText errorData)) status errorData),
      if status = 401 then removeToken (b\<lparr>fetched := fetched b @ [(method, endpoint)]\<rparr>)
      else b\<lparr>fetched := fetched b @ [(method, endpoint)]\<rparr>)"
  by (simp add: request_def fetch_sent_def request_settle_def Let_def)

lemma logout_resume_sent:
  "logout_resume (fetch_sent b ''POST'' (asc ''/auth/logout'')) outcome = AuthService_logout b outcome"
  by (simp add: logout_resume_def AuthService_logout_def request_def)

text \<open>
  \<open>refresh()\<close> fails when no refresh token is stored, with the error it throws itself,
  and when the token-exchange request fails, with the error of the request.  In both
  cases the error is rethrown and the logout is under way, its request sent and nothing
  else done.  Only once that request is answered, whatever the answer, does the store
  hold no access token, no refresh token and no cached profile, so that a \<open>refresh()\<close>
  called from then on fails at once and sends nothing but the request of its own logout.
\<close>

lemma refreshToken_failure_then_logout:
  "(\<not> truthyOpt (getItem b ''refreshToken'') \<longrightarrow>
      AuthService_refreshToken b outcome =
        (Inl (Error zh_no_refresh_token), fetch_sent b ''POST'' (asc ''/auth/logout'')))
   \<and> (truthyOpt (getItem b ''refreshToken'')
        \<and> fst (request b ''POST'' (asc ''/auth/refresh'') outcome) = Inl err \<longrightarrow>
      AuthService_refreshToken b outcome =
        (Inl err, fetch_sent (snd (request b ''POST'' (asc ''/auth/refresh'') outcome))
                    ''POST'' (asc ''/auth/logout'')))
   \<and> (fst (AuthService_refreshToken b outcome) = Inl err \<longrightarrow>
      getItem (logout_resume (snd (AuthService_refreshToken b outcome)) logoutOutcome) ''authToken'' = None
      \<and> getItem (logout_resume (snd (AuthService_refreshToken b outcome)) logoutOutcome) ''refreshToken'' = None
      \<and> getItem (logout_resume (snd (AuthService_refreshToken b outcome)) logoutOutcome) ''userProfile'' = None
      \<and> AuthService_refreshToken (logout_resume (snd (AuthService_refreshToken b outcome)) logoutOutcome)
            outcome2 =
          (Inl (Error zh_no_refresh_token),
           fetch_sent (logout_resume (snd (AuthService_refreshToken b outcome)) logoutOutcome)
             ''POST'' (asc ''/auth/logout'')))"
proof (intro conjI impI)
  assume "\<not> truthyOpt (getItem b ''refreshToken'')"
  then show "AuthService_refreshToken b outcome =
        (Inl (Error zh_no_refresh_token), fetch_sent b ''POST'' (asc ''/auth/logout''))"
    by (auto simp: AuthService_refreshToken_def truthyOpt_def split: option.splits)
next
  assume "truthyOpt (getItem b ''refreshToken'')
    \<and> fst (request b ''POST'' (asc ''/auth/refresh'') outcome) = Inl err"
  then show "AuthService_refreshToken b outcome =
        (Inl err, fetch_sent (snd (request b ''POST'' (asc ''/auth/refresh'') outcome))
                    ''POST'' (asc ''/auth/logout''))"
    by (auto simp: AuthService_refreshToken_def truthyOpt_def split: option.splits prod.splits sum.splits)
next
  let ?b' = "logout_resume (snd (AuthService_refreshToken b outcome)) logoutOutcome"
  assume f: "fst (AuthService_refreshToken b outcome) = Inl err"
  then obtain b1 where "snd (AuthService_refreshToken b outcome) = fetch_sent b1 ''POST'' (asc ''/auth/logout'')"
    by (auto simp: AuthService_refreshToken_def split: option.splits prod.splits sum.splits if_splits)
  then have s: "?b' = AuthService_logout b1 logoutOutcome"
    by (simp add: logout_resume_sent)
  show "getItem ?b' ''authToken'' = None"
    by (simp add: s getItem_def logout_keys)
  show r: "getItem ?b' ''refreshToken'' = None"
    by (simp add: s getItem_def logout_keys)
  show "getItem ?b' ''userProfile'' = None"
    by (simp add: s getItem_def logout_keys)
  show "AuthService_refreshToken ?b' outcome2 =
      (Inl (Error zh_no_refresh_token), fetch_sent ?b' ''POST'' (asc ''/auth/logout''))"
    using r by (simp add: AuthService_refreshToken_def)
qed

lemma refreshToken_failure_then_logout_example:
  "truthyOpt (getItem signed_in_browser ''refreshToken'')
   \<and> (\<exists>message. fst (AuthService_refreshToken signed_in_browser
          (Respond 401 (asc ''Unauthorized'') no_error_data (Inl []))) = Inl (ApiError message 401 no_error_data))
   \<and> getItem (logout_resume (snd (AuthService_refreshToken signed_in_browser
          (Respond 401 (asc ''Unauthorized'') no_error_data (Inl []))))
          (Reject (asc ''Failed to fetch'') :: unit fetch_outcome)) ''authToken'' = None
   \<and> getItem (logout_resume (snd (AuthService_refreshToken signed_in_browser
          (Respond 401 (asc ''Unauthorized'') no_error_data (Inl []))))
          (Reject (asc ''Failed to fetch'') :: unit fetch_outcome)) ''refreshToken'' = None
   \<and> getItem (logout_resume (snd (AuthService_refreshToken signed_in_browser
          (Respond 401 (asc ''Unauthorized'') no_error_data (Inl []))))
          (Reject (asc ''Failed to fetch'') :: unit fetch_outcome)) ''userProfile'' = None"
proof -
  let ?o = "Respond 401 (asc ''Unauthorized'') no_error_data (Inl []) :: AuthResponse fetch_outcome"
  let ?l = "Reject (asc ''Failed to fetch'') :: unit fetch_outcome"
  let ?e = "ApiError (translateServerMessage (language signed_in_browser)
               (rawMessage 401 (asc ''Unauthorized'') no_error_data)) 401 no_error_data"
  have h1: "truthyOpt (getItem signed_in_browser ''refreshToken'')"
    by (simp add: truthyOpt_def getItem_def signed_in_browser_def truthy_def asc_def)
  have ok: "\<not> response_ok 401" by (simp add: response_ok_def)
  have h2: "fst (request signed_in_browser ''POST'' (asc ''/auth/refresh'') ?o) = Inl ?e"
    by (simp only: request_error_response [OF ok] fst_conv)
  note t = refreshToken_failure_then_logout [of signed_in_browser ?o ?e ?l ?o]
  from t h1 h2 have r: "fst (AuthService_refreshToken signed_in_browser ?o) = Inl ?e"
    by simp
  from t r have "getItem (logout_resume (snd (AuthService_refreshToken signed_in_browser ?o)) ?l) ''authToken'' = None
      \<and> getItem (logout_resume (snd (AuthService_refreshToken signed_in_browser ?o)) ?l) ''refreshToken'' = None
      \<and> getItem (logout_resume (snd (AuthService_refreshToken signed_in_browser ?o)) ?l) ''userProfile'' = None"
    by blast
  with h1 r show ?thesis by blast
qed

text \<open>
  C6.  A failed \<open>refresh()\<close> rethrows the error, but the logout it has started is not
  awaited, so nothing is cleared yet when the caller gets the error.  For the signed-in
  browser and a token exchange that the network rejects, the store still holds the access
  token, the refresh token and the cached profile at that moment, and a \<open>refresh()\<close>
  called at once sends the same refresh token to \<open>/auth/refresh\<close> again.  When the
  exchange is answered with status 401, the request layer has removed the access token,
  and the refresh token and the profile are still stored.
\<close>

theorem refreshToken_rejects_before_logout_clears:
  "fst (AuthService_refreshToken signed_in_browser (Reject (asc ''Failed to fetch'')))
     = Inl (Error (asc ''Failed to fetch''))
   \<and> getItem (snd (AuthService_refreshToken signed_in_browser (Reject (asc ''Failed to fetch''))))
       ''authToken'' = Some (asc ''abc'')
   \<and> getItem (snd (AuthService_refreshToken signed_in_browser (Reject (asc ''Failed to fetch''))))
       ''refreshToken'' = Some (asc ''xyz'')
   \<and> getItem (snd (AuthService_refreshToken signed_in_browser (Reject (asc ''Failed to fetch''))))
       ''userProfile'' = Some (asc ''{}'')
   \<and> fetched (snd (AuthService_refreshToken
         (snd (AuthService_refreshToken signed_in_browser (Reject (asc ''Failed to fetch''))))
         (Reject (asc ''Failed to fetch''))))
     = [(''POST'', asc ''/auth/refresh''), (''POST'', asc ''/auth/logout''),
        (''POST'', asc ''/auth/refresh''), (''POST'', asc ''/auth/logout'')]
   \<and> getItem (snd (AuthService_refreshToken signed_in_browser
         (Respond 401 (asc ''Unauthorized'') no_error_data (Inl [])))) ''authToken'' = None
   \<and> getItem (snd (AuthService_refreshToken signed_in_browser
         (Respond 401 (asc ''Unauthorized'') no_error_data (Inl [])))) ''refreshToken'' = Some (asc ''xyz'')
   \<and> getItem (snd (AuthService_refreshToken signed_in_browser
         (Respond 401 (asc ''Unauthorized'') no_error_data (Inl [])))) ''userProfile'' = Some (asc ''{}'')
   \<and> fetched (snd (AuthService_refreshToken
         (snd (AuthService_refreshToken signed_in_browser
            (Respond 401 (asc ''Unauthorized'') no_error_data (Inl []))))
         (Respond 401 (asc ''Unauthorized'') no_error_data (Inl []))))
     = [(''POST'', asc ''/auth/refresh''), (''POST'', asc ''/auth/logout''),
        (''POST'', asc ''/auth/refresh''), (''POST'', asc ''/auth/logout'')]"
proof -
  let ?o = "Reject (asc ''Failed to fetch'') :: AuthResponse fetch_outcome"
  let ?u = "Respond 401 (asc ''Unauthorized'') no_error_data (Inl []) :: AuthResponse fetch_outcome"
  let ?sent = "\<lambda>b. b\<lparr>fetched := fetched b @ [(''POST'', asc ''/auth/refresh''), (''POST'', asc ''/auth/logout'')]\<rparr>"
  have rt: "getItem signed_in_browser ''refreshToken'' = Some (asc ''xyz'')" and t: "truthy (asc ''xyz'')"
    by (simp_all add: getItem_def signed_in_browser_def truthy_def asc_def)
  have ok: "\<not> response_ok 401"
    by (simp add: response_ok_def)
  have r1: "AuthService_refreshToken signed_in_browser ?o
      = (Inl (Error (asc ''Failed to fetch'')), ?sent signed_in_browser)"
    by (simp add: AuthService_refreshToken_def rt t request_def request_settle_def fetch_sent_def)
  have rt1: "getItem (?sent signed_in_browser) ''refreshToken'' = Some (asc ''xyz'')"
    by (simp add: getItem_def signed_in_browser_def)
  have r2: "AuthService_refreshToken (?sent signed_in_browser) ?o
      = (Inl (Error (asc ''Failed to fetch'')), ?sent (?sent signed_in_browser))"
    by (simp add: AuthService_refreshToken_def rt1 t request_def request_settle_def fetch_sent_def)
  have u1: "snd (AuthService_refreshToken signed_in_browser ?u) = removeToken (?sent signed_in_browser)"
    by (simp add: AuthService_refreshToken_def rt t request_error_response [OF ok] fetch_sent_def
        removeToken_def removeItem_def)
  have rt2: "getItem (removeToken (?sent signed_in_browser)) ''refreshToken'' = Some (asc ''xyz'')"
    by (simp add: getItem_def removeToken_def removeItem_def signed_in_browser_def)
  have u2: "snd (AuthService_refreshToken (removeToken (?sent signed_in_browser)) ?u)
      = removeToken (?sent (removeToken (?sent signed_in_browser)))"
    unfolding AuthService_refreshToken_def rt2
    by (simp add: t request_error_response [OF ok] fetch_sent_def removeToken_def removeItem_def)
  show ?thesis
    unfolding r1 r2 u1 u2 fst_conv snd_conv
    by (simp add: getItem_def removeToken_def removeItem_def signed_in_browser_def)
qed

section \<open>The error a failed login shows\<close>

lemmas rx_eval = lit truthy_def startsWith_def asc_def canonicalize_def alt_def seq_def
  lineTerminator_def whiteSpace_def

lemma loginPattern_zh: "test True loginPattern zh_invalid_credentials"
  by (simp add: loginPattern_def rx_eval)

lemma loginPattern_en: "test True loginPattern (asc ''Invalid username or password.'')"
  by (simp add: loginPattern_def rx_eval)

lemma loginPattern_not_exist: "\<not> test True loginPattern (asc ''Username does not exist.'')"
  by (simp add: loginPattern_def rx_eval)

lemma translateLoop_first_two:
  assumes "test False p1 m \<or> test False p2 m" and "truthy z"
  shows "translateLoop isZh ((p1, e, z) # (p2, e, z) # rest) m = (if isZh then z else e)"
  using assms by auto

lemma translate_invalid_credentials:
  assumes "test False pattern_invalid_credentials m \<or> test False pattern_credential_error m"
  shows "translateServerMessage lang m = zh_invalid_credentials
         \<or> translateServerMessage lang m = asc ''Invalid username or password.''"
proof -
  have z: "truthy zh_invalid_credentials" by (simp add: truthy_def lit)
  show ?thesis
    unfolding translateServerMessage_def maps_table_def Let_def
    by (simp only: translateLoop_first_two [OF assms z] if_split) simp
qed

lemma login_error_response:
  "\<not> response_ok status \<Longrightarrow>
   AuthService_login b u p (Respond status statusText errorData parsed) =
     (Inl (ApiError (translateServerMessage (language b) (rawMessage status statusText errorData)) status errorData),
      if status = 401 then removeToken (b\<lparr>fetched := fetched b @ [(''POST'', asc ''/auth/login'')]\<rparr>)
      else b\<lparr>fetched := fetched b @ [(''POST'', asc ''/auth/login'')]\<rparr>)"
  by (simp add: AuthService_login_def request_error_response)

lemma provider_login_failure:
  "AuthService_login b u p outcome = (Inl err, b1) \<Longrightarrow>
   AuthProvider_login stringify sess b u p outcome =
        (False,
         sess\<lparr>loading := False,
              session_error := Some (if test True loginPattern (error_message err)
                                     then zh_invalid_credentials else error_message err)\<rparr>,
         b1)"
  by (simp add: AuthProvider_login_def Let_def)

lemma translate_wrong_password:
  "translateServerMessage (asc ''en'') zh_invalid_credentials = asc ''Invalid username or password.''"
  by (simp add: translateServerMessage_def maps_table_def pattern_invalid_credentials_def rx_eval)

lemma translate_unknown_user:
  "translateServerMessage (asc ''en'') zh_username_not_exist = asc ''Username does not exist.''"
  by (simp add: translateServerMessage_def maps_table_def pattern_invalid_credentials_def
      pattern_credential_error_def rx_eval)

lemma login_wrong_password:
  "AuthProvider_login stringify anonymous_session anonymous_browser u p wrong_password_response =
     (False, anonymous_session\<lparr>loading := False, session_error := Some zh_invalid_credentials\<rparr>,
      removeToken (anonymous_browser\<lparr>fetched := fetched anonymous_browser @ [(''POST'', asc ''/auth/login'')]\<rparr>))"
proof -
  have ok: "\<not> response_ok 401" by (simp add: response_ok_def)
  have l: "language anonymous_browser = asc ''en''" by (simp add: anonymous_browser_def)
  have r: "rawMessage 401 (asc ''Unauthorized'')
             \<lparr>data_message = zh_invalid_credentials, data_error = [], data_details = []\<rparr> = zh_invalid_credentials"
    by (simp add: rawMessage_def truthy_def lit)
  show ?thesis
    unfolding wrong_password_response_def
    by (simp only: provider_login_failure [OF login_error_response [OF ok]] l r translate_wrong_password
        error_message.simps loginPattern_en if_True refl)
qed

lemma login_unknown_user:
  "AuthProvider_login stringify anonymous_session anonymous_browser u p unknown_user_response =
     (False, anonymous_session\<lparr>loading := False, session_error := Some (asc ''Username does not exist.'')\<rparr>,
      removeToken (anonymous_browser\<lparr>fetched := fetched anonymous_browser @ [(''POST'', asc ''/auth/login'')]\<rparr>))"
proof -
  have ok: "\<not> response_ok 401" by (simp add: response_ok_def)
  have l: "language anonymous_browser = asc ''en''" by (simp add: anonymous_browser_def)
  have r: "rawMessage 401 (asc ''Unauthorized'')
             \<lparr>data_message = zh_username_not_exist, data_error = [], data_details = []\<rparr> = zh_username_not_exist"
    by (simp add: rawMessage_def truthy_def lit)
  show ?thesis
    unfolding unknown_user_response_def
    using loginPattern_not_exist
    by (simp only: provider_login_failure [OF login_error_response [OF ok]] l r translate_unknown_user
        error_message.simps if_False if_True refl)
qed

text \<open>
  C4, as stated, fails.  With the language \<open>en\<close>, a login that the server refuses with
  the message of wrong credentials shows the generic message, and one that it refuses
  with the message that the user name does not exist shows \<open>Username does not exist.\<close>:
  the two runs differ, and the second tells that the name is unknown.
\<close>

theorem login_reveals_unknown_username:
  "session_error (fst (snd (AuthProvider_login (\<lambda>u. []) anonymous_session anonymous_browser
       (asc ''alice'') (asc ''wrong'') wrong_password_response))) = Some zh_invalid_credentials
   \<and> session_error (fst (snd (AuthProvider_login (\<lambda>u. []) anonymous_session anonymous_browser
       (asc ''alice'') (asc ''wrong'') unknown_user_response))) = Some (asc ''Username does not exist.'')
   \<and> asc ''Username does not exist.'' \<noteq> zh_invalid_credentials"
proof (intro conjI)
  show "session_error (fst (snd (AuthProvider_login (\<lambda>u. []) anonymous_session anonymous_browser
       (asc ''alice'') (asc ''wrong'') wrong_password_response))) = Some zh_invalid_credentials"
    by (simp add: login_wrong_password)
  show "session_error (fst (snd (AuthProvider_login (\<lambda>u. []) anonymous_session anonymous_browser
       (asc ''alice'') (asc ''wrong'') unknown_user_response))) = Some (asc ''Username does not exist.'')"
    by (simp add: login_unknown_user)
  show "asc ''Username does not exist.'' \<noteq> zh_invalid_credentials"
    by (simp add: asc_def lit)
qed


text \<open>
  C4, amended.  A failed login whose error message (the server's message, translated by
  the request layer) matches the pattern of \<open>login\<close> returns false and shows the generic
  message.  The message matches, in every language, whenever the server's message matches
  one of the two invalid-credentials patterns of the request layer.
\<close>

theorem login_failure_message:
  "(AuthService_login b u p outcome = (Inl err, b1) \<and> test True loginPattern (error_message err) \<longrightarrow>
      AuthProvider_login stringify sess b u p outcome =
        (False, sess\<lparr>loading := False, session_error := Some zh_invalid_credentials\<rparr>, b1))
   \<and> (\<not> response_ok status
       \<and> (test False pattern_invalid_credentials (rawMessage status statusText errorData)
          \<or> test False pattern_credential_error (rawMessage status statusText errorData)) \<longrightarrow>
      \<not> fst (AuthProvider_login stringify sess b u p (Respond status statusText errorData parsed))
      \<and> session_error (fst (snd (AuthProvider_login stringify sess b u p
            (Respond status statusText errorData parsed)))) = Some zh_invalid_credentials)"
proof (intro conjI impI)
  assume a: "AuthService_login b u p outcome = (Inl err, b1) \<and> test True loginPattern (error_message err)"
  then have "AuthService_login b u p outcome = (Inl err, b1)" by simp
  from provider_login_failure [OF this, of stringify sess] a
  show "AuthProvider_login stringify sess b u p outcome =
        (False, sess\<lparr>loading := False, session_error := Some zh_invalid_credentials\<rparr>, b1)"
    by simp
next
  assume a: "\<not> response_ok status
       \<and> (test False pattern_invalid_credentials (rawMessage status statusText errorData)
          \<or> test False pattern_credential_error (rawMessage status statusText errorData))"
  let ?m = "translateServerMessage (language b) (rawMessage status statusText errorData)"
  let ?o = "Respond status statusText errorData parsed :: AuthResponse fetch_outcome"
  from a have ok: "\<not> response_ok status" by simp
  have m: "test True loginPattern ?m"
    using translate_invalid_credentials [of "rawMessage status statusText errorData" "language b"] a
      loginPattern_zh loginPattern_en by auto
  note p = provider_login_failure [OF login_error_response [OF ok], of stringify sess b u p statusText errorData parsed]
  show "\<not> fst (AuthProvider_login stringify sess b u p ?o)"
    by (simp only: p fst_conv not_False_eq_True)
  show "session_error (fst (snd (AuthProvider_login stringify sess b u p ?o))) = Some zh_invalid_credentials"
    using m by (simp only: p fst_conv snd_conv error_message.simps if_True) simp
qed

theorem login_failure_message_witness:
  "\<not> fst (AuthProvider_login (\<lambda>u. []) anonymous_session anonymous_browser
       (asc ''alice'') (asc ''wrong'') wrong_password_response)
   \<and> session_error (fst (snd (AuthProvider_login (\<lambda>u. []) anonymous_session anonymous_browser
       (asc ''alice'') (asc ''wrong'') wrong_password_response))) = Some zh_invalid_credentials"
proof -
  have h1: "\<not> response_ok 401" by (simp add: response_ok_def)
  have h2: "test False pattern_invalid_credentials
              (rawMessage 401 (asc ''Unauthorized'') \<lparr>data_message = zh_invalid_credentials, data_error = [], data_details = []\<rparr>)"
    by (simp add: rawMessage_def pattern_invalid_credentials_def rx_eval)
  from h1 h2 have h: "\<not> response_ok 401
       \<and> (test False pattern_invalid_credentials (rawMessage 401 (asc ''Unauthorized'') \<lparr>data_message = zh_invalid_credentials, data_error = [], data_details = []\<rparr>)
          \<or> test False pattern_credential_error (rawMessage 401 (asc ''Unauthorized'') \<lparr>data_message = zh_invalid_credentials, data_error = [], data_details = []\<rparr>))"
    by simp
  note t = login_failure_message [of anonymous_browser "asc ''alice''" "asc ''wrong''" wrong_password_response
       "Error []" anonymous_browser "\<lambda>u. []" anonymous_session 401 "asc ''Unauthorized''"
       "\<lparr>data_message = zh_invalid_credentials, data_error = [], data_details = []\<rparr>" "Inl []"]
  from t have "\<not> fst (AuthProvider_login (\<lambda>u. []) anonymous_session anonymous_browser (asc ''alice'') (asc ''wrong'')
        (Respond 401 (asc ''Unauthorized'') \<lparr>data_message = zh_invalid_credentials, data_error = [], data_details = []\<rparr> (Inl [])))
      \<and> session_error (fst (snd (AuthProvider_login (\<lambda>u. []) anonymous_session anonymous_browser (asc ''alice'') (asc ''wrong'')
            (Respond 401 (asc ''Unauthorized'') \<lparr>data_message = zh_invalid_credentials, data_error = [], data_details = []\<rparr> (Inl []))))) = Some zh_invalid_credentials"
    using h by blast
  then show ?thesis
    unfolding wrong_password_response_def .
qed

section \<open>The OAuth redirect\<close>


















section \<open>Sorting\<close>

text \<open>
  A consistent comparator orders the elements totally, up to the elements that compare
  equal.
\<close>

lemma consistentOn_subset: "consistentOn f S \<Longrightarrow> T \<subseteq> S \<Longrightarrow> consistentOn f T"
  unfolding consistentOn_def by (intro conjI ballI impI) blast+

lemma consistent_refl: "consistentOn f S \<Longrightarrow> a \<in> S \<Longrightarrow> sortCompare f a a = 0"
  by (simp add: consistentOn_def)

lemma consistent_sym: "consistentOn f S \<Longrightarrow> a \<in> S \<Longrightarrow> b \<in> S \<Longrightarrow> sortCompare f a b = 0 \<Longrightarrow> sortCompare f b a = 0"
  unfolding consistentOn_def by blast

lemma consistent_eq_trans:
  "consistentOn f S \<Longrightarrow> a \<in> S \<Longrightarrow> b \<in> S \<Longrightarrow> c \<in> S \<Longrightarrow> sortCompare f a b = 0 \<Longrightarrow> sortCompare f b c = 0
   \<Longrightarrow> sortCompare f a c = 0"
  unfolding consistentOn_def by blast

lemma consistent_less_trans:
  "consistentOn f S \<Longrightarrow> a \<in> S \<Longrightarrow> b \<in> S \<Longrightarrow> c \<in> S \<Longrightarrow> sortCompare f a b < 0 \<Longrightarrow> sortCompare f b c < 0
   \<Longrightarrow> sortCompare f a c < 0"
  unfolding consistentOn_def by blast

lemma consistent_greater_trans:
  "consistentOn f S \<Longrightarrow> a \<in> S \<Longrightarrow> b \<in> S \<Longrightarrow> c \<in> S \<Longrightarrow> sortCompare f a b > 0 \<Longrightarrow> sortCompare f b c > 0
   \<Longrightarrow> sortCompare f a c > 0"
  unfolding consistentOn_def by blast

lemma consistent_anti:
  assumes c: "consistentOn f S" and a: "a \<in> S" and b: "b \<in> S"
  shows "(sortCompare f a b < 0) = (sortCompare f b a > 0)"
proof
  assume l: "sortCompare f a b < 0"
  show "sortCompare f b a > 0"
  proof (rule ccontr)
    assume "\<not> sortCompare f b a > 0"
    then consider "sortCompare f b a = 0" | "sortCompare f b a < 0" by linarith
    then show False
    proof cases
      case 1
      from consistent_sym [OF c b a 1] l show False by simp
    next
      case 2
      from consistent_less_trans [OF c a b a l 2] consistent_refl [OF c a] show False by simp
    qed
  qed
next
  assume g: "sortCompare f b a > 0"
  show "sortCompare f a b < 0"
  proof (rule ccontr)
    assume "\<not> sortCompare f a b < 0"
    then consider "sortCompare f a b = 0" | "sortCompare f a b > 0" by linarith
    then show False
    proof cases
      case 1
      from consistent_sym [OF c a b 1] g show False by simp
    next
      case 2
      from consistent_greater_trans [OF c a b a 2 g] consistent_refl [OF c a] show False by simp
    qed
  qed
qed

lemma consistent_less_eq:
  assumes c: "consistentOn f S" and a: "a \<in> S" and b: "b \<in> S" and d: "d \<in> S"
    and l: "sortCompare f a b < 0" and e: "sortCompare f b d = 0"
  shows "sortCompare f a d < 0"
proof (rule ccontr)
  assume "\<not> sortCompare f a d < 0"
  then consider "sortCompare f a d = 0" | "sortCompare f a d > 0" by linarith
  then show False
  proof cases
    case 1
    from consistent_eq_trans [OF c a d b 1 consistent_sym [OF c b d e]] l show False by simp
  next
    case 2
    then have "sortCompare f d a < 0" by (simp add: consistent_anti [OF c d a])
    from consistent_less_trans [OF c d a b this l] consistent_sym [OF c b d e] show False by simp
  qed
qed

lemma consistent_eq_less:
  assumes c: "consistentOn f S" and a: "a \<in> S" and b: "b \<in> S" and d: "d \<in> S"
    and e: "sortCompare f a b = 0" and l: "sortCompare f b d < 0"
  shows "sortCompare f a d < 0"
proof (rule ccontr)
  assume "\<not> sortCompare f a d < 0"
  then consider "sortCompare f a d = 0" | "sortCompare f a d > 0" by linarith
  then show False
  proof cases
    case 1
    from consistent_eq_trans [OF c b a d consistent_sym [OF c a b e] 1] l show False by simp
  next
    case 2
    then have "sortCompare f d a < 0" by (simp add: consistent_anti [OF c d a])
    from consistent_less_trans [OF c b d a l this] consistent_sym [OF c a b e] show False by simp
  qed
qed

lemma consistent_le_trans:
  assumes c: "consistentOn f S" and a: "a \<in> S" and b: "b \<in> S" and d: "d \<in> S"
    and ab: "sortCompare f a b \<le> 0" and bd: "sortCompare f b d \<le> 0"
  shows "sortCompare f a d \<le> 0"
proof -
  consider "sortCompare f a b < 0" "sortCompare f b d < 0" | "sortCompare f a b < 0" "sortCompare f b d = 0"
    | "sortCompare f a b = 0" "sortCompare f b d < 0" | "sortCompare f a b = 0" "sortCompare f b d = 0"
    using ab bd by linarith
  then show ?thesis
  proof cases
    case 1 with consistent_less_trans [OF c a b d] show ?thesis by simp
  next
    case 2 with consistent_less_eq [OF c a b d] show ?thesis by simp
  next
    case 3 with consistent_eq_less [OF c a b d] show ?thesis by simp
  next
    case 4 with consistent_eq_trans [OF c a b d] show ?thesis by simp
  qed
qed

lemma consistent_not_less:
  assumes "consistentOn f S" "a \<in> S" "b \<in> S"
  shows "(\<not> sortCompare f b a < 0) = (sortCompare f a b \<le> 0)"
  using consistent_anti [OF assms(1) assms(3) assms(2)] by linarith


lemma sorted_consistent:
  assumes "consistentOn f S" and "set xs \<subseteq> S"
  shows "sorted_wrt (\<lambda>a b. \<not> sortCompare f b a < 0) xs = sorted_wrt (\<lambda>a b. sortCompare f a b \<le> 0) xs"
  using assms(2)
proof (induction xs)
  case Nil
  show ?case by simp
next
  case (Cons x xs)
  then have "\<forall>y\<in>set xs. (\<not> sortCompare f y x < 0) = (sortCompare f x y \<le> 0)"
    using consistent_not_less [OF assms(1)] by auto
  with Cons show ?case by auto
qed

text \<open>There is one stable sorted order.\<close>

lemma stable_sorted_unique:
  assumes c: "consistentOn f S"
  shows "set ys \<subseteq> S \<Longrightarrow> mset ys = mset zs
    \<Longrightarrow> sorted_wrt (\<lambda>a b. sortCompare f a b \<le> 0) ys
    \<Longrightarrow> sorted_wrt (\<lambda>a b. sortCompare f a b \<le> 0) zs
    \<Longrightarrow> (\<And>x. x \<in> S \<Longrightarrow> filter (\<lambda>y. sortCompare f x y = 0) ys = filter (\<lambda>y. sortCompare f x y = 0) zs)
    \<Longrightarrow> ys = zs"
proof (induction ys arbitrary: zs)
  case Nil
  then show ?case by simp
next
  case (Cons y ys)
  from Cons.prems(2) have "zs \<noteq> []" by auto
  then obtain z zs' where zs: "zs = z # zs'" by (cases zs) auto
  from Cons.prems(1) have yS: "y \<in> S" by simp
  from Cons.prems(2) have sets: "set (y # ys) = set zs" by (rule mset_eq_setD)
  with zs Cons.prems(1) have zS: "z \<in> S" by auto
  have yz: "sortCompare f y z \<le> 0"
  proof (cases "z = y")
    case True
    with consistent_refl [OF c yS] show ?thesis by simp
  next
    case False
    with sets zs have "z \<in> set ys" by auto
    with Cons.prems(3) show ?thesis by simp
  qed
  have zy: "sortCompare f z y \<le> 0"
  proof (cases "y = z")
    case True
    with consistent_refl [OF c yS] show ?thesis by simp
  next
    case False
    with sets zs have "y \<in> set zs'" by auto
    with Cons.prems(4) zs show ?thesis by simp
  qed
  from yz zy consistent_anti [OF c yS zS] have e: "sortCompare f y z = 0" by linarith
  from Cons.prems(5) [OF yS] zs consistent_refl [OF c yS] e have "y = z" by simp
  with zs have zs': "zs = y # zs'" by simp
  have "ys = zs'"
  proof (rule Cons.IH)
    show "set ys \<subseteq> S" using Cons.prems(1) by simp
    show "mset ys = mset zs'" using Cons.prems(2) zs' by simp
    show "sorted_wrt (\<lambda>a b. sortCompare f a b \<le> 0) ys" using Cons.prems(3) by simp
    show "sorted_wrt (\<lambda>a b. sortCompare f a b \<le> 0) zs'" using Cons.prems(4) zs' by simp
    show "filter (\<lambda>y. sortCompare f x y = 0) ys = filter (\<lambda>y. sortCompare f x y = 0) zs'" if "x \<in> S" for x
      using Cons.prems(5) [OF that] zs' by (simp split: if_splits)
  qed
  with zs' show ?case by simp
qed

text \<open>So any two sorts that meet the standard agree under a consistent comparator, and sorting a sorted list changes nothing.\<close>

lemma stableSortOf_unique:
  assumes c: "consistentOn f (set xs)" and y: "stableSortOf f xs ys" and z: "stableSortOf f xs zs"
  shows "ys = zs"
proof (rule stable_sorted_unique [OF c])
  from y have m: "mset ys = mset xs" by (simp add: stableSortOf_def)
  from z have n: "mset zs = mset xs" by (simp add: stableSortOf_def)
  from m have sy: "set ys = set xs" by (rule mset_eq_setD)
  from n have sz: "set zs = set xs" by (rule mset_eq_setD)
  show "set ys \<subseteq> set xs" using sy by simp
  show "mset ys = mset zs" using m n by simp
  show "sorted_wrt (\<lambda>a b. sortCompare f a b \<le> 0) ys"
    using y sorted_consistent [OF c, of ys] sy by (simp add: stableSortOf_def)
  show "sorted_wrt (\<lambda>a b. sortCompare f a b \<le> 0) zs"
    using z sorted_consistent [OF c, of zs] sz by (simp add: stableSortOf_def)
  show "filter (\<lambda>y. sortCompare f x y = 0) ys = filter (\<lambda>y. sortCompare f x y = 0) zs" if "x \<in> set xs" for x
    using y z that by (simp add: stableSortOf_def)
qed

lemma stableSortOf_sorted:
  assumes "stableSortOf f xs ys"
  shows "stableSortOf f ys ys"
proof -
  from assms have "sorted_wrt (\<lambda>a b. \<not> sortCompare f b a < 0) ys"
    unfolding stableSortOf_def by blast
  then show ?thesis
    unfolding stableSortOf_def by simp
qed

lemma conforming_mset: "conforming sortImpl \<Longrightarrow> mset (sortImpl f xs) = mset xs"
  unfolding conforming_def by blast

lemma conforming_stable:
  "conforming sortImpl \<Longrightarrow> consistentOn f (set xs) \<Longrightarrow> stableSortOf f xs (sortImpl f xs)"
  unfolding conforming_def by blast

lemma conforming_set: "conforming sortImpl \<Longrightarrow> set (sortImpl f xs) = set xs"
  by (rule mset_eq_setD [OF conforming_mset])

lemma conforming_idempotent:
  assumes s: "conforming sortImpl" and c: "consistentOn f (set xs)"
  shows "sortImpl f (sortImpl f xs) = sortImpl f xs"
proof -
  note y = conforming_stable [OF s c]
  from c have c': "consistentOn f (set (sortImpl f xs))"
    by (simp only: conforming_set [OF s])
  note z = conforming_stable [OF s c']
  from stableSortOf_unique [OF c' z stableSortOf_sorted [OF y]] show ?thesis .
qed

lemma conforming_agree:
  assumes "conforming sortImpl" and "conforming sortImpl'" and "consistentOn f (set xs)"
  shows "sortImpl f xs = sortImpl' f xs"
  by (rule stableSortOf_unique [OF assms(3) conforming_stable [OF assms(1) assms(3)]
        conforming_stable [OF assms(2) assms(3)]])

text \<open>The merge sort meets the standard.\<close>

lemma mset_mergeRuns: "mset (mergeRuns f xs ys) = mset xs + mset ys"
  by (induction f xs ys rule: mergeRuns.induct) simp_all

lemma set_mergeRuns: "set (mergeRuns f xs ys) = set xs \<union> set ys"
  by (induction f xs ys rule: mergeRuns.induct) auto

lemma sorted_mergeRuns:
  "consistentOn f S \<Longrightarrow> set xs \<subseteq> S \<Longrightarrow> set ys \<subseteq> S
    \<Longrightarrow> sorted_wrt (\<lambda>a b. sortCompare f a b \<le> 0) xs \<Longrightarrow> sorted_wrt (\<lambda>a b. sortCompare f a b \<le> 0) ys
    \<Longrightarrow> sorted_wrt (\<lambda>a b. sortCompare f a b \<le> 0) (mergeRuns f xs ys)"
proof (induction f xs ys rule: mergeRuns.induct)
  case (1 f ys)
  then show ?case by simp
next
  case (2 f x xs)
  then show ?case by simp
next
  case (3 f x xs y ys)
  note c = "3.prems"(1)
  from "3.prems" have xS: "x \<in> S" and yS: "y \<in> S" and xsS: "set xs \<subseteq> S" and ysS: "set ys \<subseteq> S"
    by auto
  from "3.prems"(4) have sx: "sorted_wrt (\<lambda>a b. sortCompare f a b \<le> 0) xs"
    and hx: "\<forall>e\<in>set xs. sortCompare f x e \<le> 0" by simp_all
  from "3.prems"(5) have sy: "sorted_wrt (\<lambda>a b. sortCompare f a b \<le> 0) ys"
    and hy: "\<forall>e\<in>set ys. sortCompare f y e \<le> 0" by simp_all
  show ?case
  proof (cases "sortCompare f x y \<le> 0")
    case True
    have "sortCompare f x e \<le> 0" if "e \<in> set ys" for e
    proof -
      from that hy have "sortCompare f y e \<le> 0" by simp
      from consistent_le_trans [OF c xS yS _ True this] that ysS show ?thesis by auto
    qed
    with True hx have h: "\<forall>e\<in>set (mergeRuns f xs (y # ys)). sortCompare f x e \<le> 0"
      by (auto simp: set_mergeRuns)
    from "3.IH"(1) [OF True c xsS "3.prems"(3) sx "3.prems"(5)]
    have "sorted_wrt (\<lambda>a b. sortCompare f a b \<le> 0) (mergeRuns f xs (y # ys))" .
    with h True show ?thesis by simp
  next
    case False
    then have yx: "sortCompare f y x \<le> 0"
      using consistent_anti [OF c yS xS] by linarith
    have "sortCompare f y e \<le> 0" if "e \<in> set xs" for e
    proof -
      from that hx have "sortCompare f x e \<le> 0" by simp
      from consistent_le_trans [OF c yS xS _ yx this] that xsS show ?thesis by auto
    qed
    with yx hy have h: "\<forall>e\<in>set (mergeRuns f (x # xs) ys). sortCompare f y e \<le> 0"
      by (auto simp: set_mergeRuns)
    from "3.IH"(2) [OF False c "3.prems"(2) ysS "3.prems"(4) sy]
    have "sorted_wrt (\<lambda>a b. sortCompare f a b \<le> 0) (mergeRuns f (x # xs) ys)" .
    with h False show ?thesis by simp
  qed
qed

text \<open>
  An element of the right run is taken before the rest of the left run only when it
  compares less than all of it, so the elements that compare equal keep their order.
\<close>

lemma stable_mergeRuns:
  "consistentOn f S \<Longrightarrow> set xs \<subseteq> S \<Longrightarrow> set ys \<subseteq> S \<Longrightarrow> a \<in> S
    \<Longrightarrow> sorted_wrt (\<lambda>a b. sortCompare f a b \<le> 0) xs
    \<Longrightarrow> filter (\<lambda>y. sortCompare f a y = 0) (mergeRuns f xs ys) =
        filter (\<lambda>y. sortCompare f a y = 0) xs @ filter (\<lambda>y. sortCompare f a y = 0) ys"
proof (induction f xs ys rule: mergeRuns.induct)
  case (1 f ys)
  then show ?case by simp
next
  case (2 f x xs)
  then show ?case by simp
next
  case (3 f x xs y ys)
  note c = "3.prems"(1) and aS = "3.prems"(4)
  from "3.prems" have xS: "x \<in> S" and yS: "y \<in> S" and xsS: "set xs \<subseteq> S" and ysS: "set ys \<subseteq> S"
    by auto
  from "3.prems"(5) have sx: "sorted_wrt (\<lambda>a b. sortCompare f a b \<le> 0) xs"
    and hx: "\<forall>e\<in>set xs. sortCompare f x e \<le> 0" by simp_all
  show ?case
  proof (cases "sortCompare f x y \<le> 0")
    case True
    from "3.IH"(1) [OF True c xsS "3.prems"(3) aS sx] True show ?thesis by simp
  next
    case False
    then have yx: "sortCompare f y x < 0"
      using consistent_anti [OF c yS xS] by linarith
    note ih = "3.IH"(2) [OF False c "3.prems"(2) ysS aS "3.prems"(5)]
    show ?thesis
    proof (cases "sortCompare f a y = 0")
      case ay: True
      have "sortCompare f a e \<noteq> 0" if e: "e \<in> set (x # xs)" for e
      proof
        assume ae: "sortCompare f a e = 0"
        from e "3.prems"(2) have eS: "e \<in> S" by auto
        have xe: "sortCompare f x e \<le> 0"
          using e hx consistent_refl [OF c xS] by auto
        have "sortCompare f y e < 0"
        proof (cases "sortCompare f x e < 0")
          case True
          from consistent_less_trans [OF c yS xS eS yx True] show ?thesis .
        next
          case False
          with xe have "sortCompare f x e = 0" by simp
          from consistent_less_eq [OF c yS xS eS yx this] show ?thesis .
        qed
        moreover have "sortCompare f y e = 0"
          by (rule consistent_eq_trans [OF c yS aS eS consistent_sym [OF c aS yS ay] ae])
        ultimately show False by simp
      qed
      then have "filter (\<lambda>y. sortCompare f a y = 0) (x # xs) = []"
        by (simp only: filter_empty_conv) blast
      with ih False ay show ?thesis by simp
    next
      case False
      with ih \<open>\<not> sortCompare f x y \<le> 0\<close> show ?thesis by simp
    qed
  qed
qed

lemma mset_mergeSort: "mset (mergeSort f xs) = mset xs"
proof (induction f xs rule: mergeSort.induct)
  case (1 f xs)
  show ?case
  proof (cases "length xs \<le> 1")
    case True
    then show ?thesis by (simp add: mergeSort.simps [of f xs])
  next
    case False
    then have "mset (mergeSort f xs) =
        mset (take (length xs div 2) xs) + mset (drop (length xs div 2) xs)"
      using 1 by (simp add: mergeSort.simps [of f xs] mset_mergeRuns)
    also have "\<dots> = mset (take (length xs div 2) xs @ drop (length xs div 2) xs)"
      by (simp only: mset_append)
    finally show ?thesis by simp
  qed
qed

lemma set_mergeSort: "set (mergeSort f xs) = set xs"
  by (rule mset_eq_setD [OF mset_mergeSort])

lemma sorted_mergeSort:
  "consistentOn f S \<Longrightarrow> set xs \<subseteq> S \<Longrightarrow> sorted_wrt (\<lambda>a b. sortCompare f a b \<le> 0) (mergeSort f xs)"
proof (induction f xs rule: mergeSort.induct)
  case (1 f xs)
  show ?case
  proof (cases "length xs \<le> 1")
    case True
    then have "xs = [] \<or> (\<exists>x. xs = [x])" by (cases xs) auto
    with True show ?thesis by (auto simp: mergeSort.simps [of f xs])
  next
    case False
    have t: "set (take (length xs div 2) xs) \<subseteq> S" using "1.prems"(2) set_take_subset [of _ xs] by blast
    have d: "set (drop (length xs div 2) xs) \<subseteq> S" using "1.prems"(2) set_drop_subset [of _ xs] by blast
    from False show ?thesis
      by (simp add: mergeSort.simps [of f xs])
         (rule sorted_mergeRuns [OF "1.prems"(1)],
          simp_all add: set_mergeSort t d "1.IH"(1) [OF False "1.prems"(1) t] "1.IH"(2) [OF False "1.prems"(1) d])
  qed
qed

lemma stable_mergeSort:
  "consistentOn f S \<Longrightarrow> set xs \<subseteq> S \<Longrightarrow> a \<in> S
    \<Longrightarrow> filter (\<lambda>y. sortCompare f a y = 0) (mergeSort f xs) = filter (\<lambda>y. sortCompare f a y = 0) xs"
proof (induction f xs rule: mergeSort.induct)
  case (1 f xs)
  show ?case
  proof (cases "length xs \<le> 1")
    case True
    then show ?thesis by (simp add: mergeSort.simps [of f xs])
  next
    case False
    let ?l = "take (length xs div 2) xs" and ?r = "drop (length xs div 2) xs"
    have t: "set ?l \<subseteq> S" using "1.prems"(2) set_take_subset [of _ xs] by blast
    have d: "set ?r \<subseteq> S" using "1.prems"(2) set_drop_subset [of _ xs] by blast
    from False have "filter (\<lambda>y. sortCompare f a y = 0) (mergeSort f xs) =
        filter (\<lambda>y. sortCompare f a y = 0) (mergeRuns f (mergeSort f ?l) (mergeSort f ?r))"
      by (simp add: mergeSort.simps [of f xs])
    also have "\<dots> = filter (\<lambda>y. sortCompare f a y = 0) (mergeSort f ?l)
        @ filter (\<lambda>y. sortCompare f a y = 0) (mergeSort f ?r)"
      by (rule stable_mergeRuns [OF "1.prems"(1) _ _ "1.prems"(3) sorted_mergeSort [OF "1.prems"(1) t]])
         (simp_all add: set_mergeSort t d)
    also have "\<dots> = filter (\<lambda>y. sortCompare f a y = 0) ?l @ filter (\<lambda>y. sortCompare f a y = 0) ?r"
      by (simp only: "1.IH"(1) [OF False "1.prems"(1) t "1.prems"(3)]
          "1.IH"(2) [OF False "1.prems"(1) d "1.prems"(3)])
    also have "\<dots> = filter (\<lambda>y. sortCompare f a y = 0) (?l @ ?r)"
      by (simp only: filter_append)
    finally show ?thesis by simp
  qed
qed

lemma mergeSort_conforming: "conforming mergeSort"
  unfolding conforming_def stableSortOf_def
proof (intro conjI allI impI ballI)
  fix f :: "'a \<Rightarrow> 'a \<Rightarrow> number" and xs
  show "mset (mergeSort f xs) = mset xs" by (rule mset_mergeSort)
  show "mset (mergeSort f xs) = mset xs" by (rule mset_mergeSort)
  assume c: "consistentOn f (set xs)"
  show "sorted_wrt (\<lambda>a b. \<not> sortCompare f b a < 0) (mergeSort f xs)"
    using sorted_mergeSort [OF c subset_refl] sorted_consistent [OF c, of "mergeSort f xs"]
    by (simp add: set_mergeSort)
  show "filter (\<lambda>y. sortCompare f x y = 0) (mergeSort f xs) = filter (\<lambda>y. sortCompare f x y = 0) xs"
    if "x \<in> set xs" for x
    by (rule stable_mergeSort [OF c subset_refl that])
qed

text \<open>The insertion sort meets the standard.\<close>

lemma mset_insertSorted: "mset (insertSorted f x ys) = add_mset x (mset ys)"
  by (induction ys) simp_all

lemma set_insertSorted: "set (insertSorted f x ys) = insert x (set ys)"
  by (induction ys) auto

lemma insertionSort_Cons: "insertionSort f (x # xs) = insertSorted f x (insertionSort f xs)"
  by (simp add: insertionSort_def)

lemma mset_insertionSort: "mset (insertionSort f xs) = mset xs"
  by (induction xs) (simp add: insertionSort_def, simp add: insertionSort_Cons mset_insertSorted)

lemma set_insertionSort: "set (insertionSort f xs) = set xs"
  by (rule mset_eq_setD [OF mset_insertionSort])

lemma sorted_insertSorted:
  assumes c: "consistentOn f S" and xS: "x \<in> S"
  shows "set ys \<subseteq> S \<Longrightarrow> sorted_wrt (\<lambda>a b. sortCompare f a b \<le> 0) ys
    \<Longrightarrow> sorted_wrt (\<lambda>a b. sortCompare f a b \<le> 0) (insertSorted f x ys)"
proof (induction ys)
  case Nil
  show ?case by simp
next
  case (Cons y ys)
  from Cons.prems have yS: "y \<in> S" and ysS: "set ys \<subseteq> S"
    and hy: "\<forall>e\<in>set ys. sortCompare f y e \<le> 0"
    and sy: "sorted_wrt (\<lambda>a b. sortCompare f a b \<le> 0) ys" by simp_all
  show ?case
  proof (cases "sortCompare f x y \<le> 0")
    case True
    have "sortCompare f x e \<le> 0" if "e \<in> set ys" for e
    proof -
      from that hy have "sortCompare f y e \<le> 0" by simp
      from consistent_le_trans [OF c xS yS _ True this] that ysS show ?thesis by auto
    qed
    with True Cons.prems show ?thesis by simp
  next
    case False
    then have "sortCompare f y x \<le> 0"
      using consistent_anti [OF c yS xS] by linarith
    with False hy Cons.IH [OF ysS sy] show ?thesis
      by (simp add: set_insertSorted)
  qed
qed

lemma sorted_insertionSort:
  assumes c: "consistentOn f S"
  shows "set xs \<subseteq> S \<Longrightarrow> sorted_wrt (\<lambda>a b. sortCompare f a b \<le> 0) (insertionSort f xs)"
proof (induction xs)
  case Nil
  show ?case by (simp add: insertionSort_def)
next
  case (Cons x xs)
  then have "x \<in> S" and "set (insertionSort f xs) \<subseteq> S"
    and "sorted_wrt (\<lambda>a b. sortCompare f a b \<le> 0) (insertionSort f xs)"
    by (simp_all add: set_insertionSort)
  then show ?case
    by (simp only: insertionSort_Cons sorted_insertSorted [OF c])
qed

lemma stable_insertSorted:
  assumes c: "consistentOn f S" and aS: "a \<in> S" and xS: "x \<in> S"
  shows "set ys \<subseteq> S \<Longrightarrow>
    filter (\<lambda>y. sortCompare f a y = 0) (insertSorted f x ys) = filter (\<lambda>y. sortCompare f a y = 0) (x # ys)"
proof (induction ys)
  case Nil
  show ?case by simp
next
  case (Cons y ys)
  from Cons.prems have yS: "y \<in> S" and ysS: "set ys \<subseteq> S" by simp_all
  show ?case
  proof (cases "sortCompare f x y \<le> 0")
    case True
    then show ?thesis by simp
  next
    case False
    have "\<not> (sortCompare f a x = 0 \<and> sortCompare f a y = 0)"
    proof
      assume "sortCompare f a x = 0 \<and> sortCompare f a y = 0"
      then have "sortCompare f x y = 0"
        using consistent_eq_trans [OF c xS aS yS consistent_sym [OF c aS xS]] by simp
      with False show False by simp
    qed
    with False Cons.IH [OF ysS] show ?thesis by auto
  qed
qed

lemma stable_insertionSort:
  assumes c: "consistentOn f S" and aS: "a \<in> S"
  shows "set xs \<subseteq> S \<Longrightarrow>
    filter (\<lambda>y. sortCompare f a y = 0) (insertionSort f xs) = filter (\<lambda>y. sortCompare f a y = 0) xs"
proof (induction xs)
  case Nil
  show ?case by (simp add: insertionSort_def)
next
  case (Cons x xs)
  then have xS: "x \<in> S" and s: "set (insertionSort f xs) \<subseteq> S"
    and ih: "filter (\<lambda>y. sortCompare f a y = 0) (insertionSort f xs) = filter (\<lambda>y. sortCompare f a y = 0) xs"
    by (simp_all add: set_insertionSort)
  show ?case
    by (simp only: insertionSort_Cons stable_insertSorted [OF c aS xS s]) (simp add: ih)
qed

lemma insertionSort_conforming: "conforming insertionSort"
  unfolding conforming_def stableSortOf_def
proof (intro conjI allI impI ballI)
  fix f :: "'a \<Rightarrow> 'a \<Rightarrow> number" and xs
  show "mset (insertionSort f xs) = mset xs" by (rule mset_insertionSort)
  show "mset (insertionSort f xs) = mset xs" by (rule mset_insertionSort)
  assume c: "consistentOn f (set xs)"
  show "sorted_wrt (\<lambda>a b. \<not> sortCompare f b a < 0) (insertionSort f xs)"
    using sorted_insertionSort [OF c subset_refl] sorted_consistent [OF c, of "insertionSort f xs"]
    by (simp add: set_insertionSort)
  show "filter (\<lambda>y. sortCompare f x y = 0) (insertionSort f xs) = filter (\<lambda>y. sortCompare f x y = 0) xs"
    if "x \<in> set xs" for x
    by (rule stable_insertionSort [OF c that subset_refl])
qed

text \<open>
  The comparators of the two pages.  One that compares keys of a linear order is
  consistent, and so is one that subtracts numbers none of which is \<open>NaN\<close>; swapping the
  arguments keeps a comparator consistent.
\<close>

lemma consistentOn_key:
  fixes k :: "'a \<Rightarrow> 'k::linorder"
  assumes n: "\<And>a b. a \<in> S \<Longrightarrow> b \<in> S \<Longrightarrow> f a b \<noteq> None"
    and l: "\<And>a b. a \<in> S \<Longrightarrow> b \<in> S \<Longrightarrow> (sortCompare f a b < 0) = (k a < k b)"
    and e: "\<And>a b. a \<in> S \<Longrightarrow> b \<in> S \<Longrightarrow> (sortCompare f a b = 0) = (k a = k b)"
  shows "consistentOn f S"
proof -
  have g: "(sortCompare f a b > 0) = (k b < k a)" if "a \<in> S" "b \<in> S" for a b
  proof -
    have "(sortCompare f a b > 0) = (\<not> sortCompare f a b < 0 \<and> \<not> sortCompare f a b = 0)" by linarith
    also have "\<dots> = (\<not> k a < k b \<and> k a \<noteq> k b)" by (simp only: l [OF that] e [OF that])
    also have "\<dots> = (k b < k a)" by auto
    finally show ?thesis .
  qed
  show ?thesis
    unfolding consistentOn_def
  proof (intro conjI ballI impI)
    fix a b assume "a \<in> S" "b \<in> S"
    then show "f a b \<noteq> None" by (rule n)
  next
    fix a assume "a \<in> S"
    then show "sortCompare f a a = 0" by (simp add: e)
  next
    fix a b assume "a \<in> S" "b \<in> S" "sortCompare f a b = 0"
    then show "sortCompare f b a = 0" by (simp add: e)
  next
    fix a b c assume "a \<in> S" "b \<in> S" "c \<in> S" "sortCompare f a b = 0 \<and> sortCompare f b c = 0"
    then show "sortCompare f a c = 0" by (simp add: e)
  next
    fix a b c assume "a \<in> S" "b \<in> S" "c \<in> S" "sortCompare f a b < 0 \<and> sortCompare f b c < 0"
    then have "k a < k b" "k b < k c" by (simp_all add: l)
    then have "k a < k c" by (rule less_trans)
    with \<open>a \<in> S\<close> \<open>c \<in> S\<close> show "sortCompare f a c < 0" by (simp add: l)
  next
    fix a b c assume "a \<in> S" "b \<in> S" "c \<in> S" "0 < sortCompare f a b \<and> 0 < sortCompare f b c"
    then have "k c < k b" "k b < k a" by (simp_all add: g)
    then have "k c < k a" by (rule less_trans)
    with \<open>a \<in> S\<close> \<open>c \<in> S\<close> show "0 < sortCompare f a c" by (simp add: g)
  qed
qed

lemma consistentOn_flip:
  assumes c: "consistentOn f S"
  shows "consistentOn (\<lambda>a b. f b a) S"
proof -
  have v: "sortCompare (\<lambda>a b. f b a) a b = sortCompare f b a" for a b
    by (simp add: sortCompare_def)
  show ?thesis
    unfolding consistentOn_def v
  proof (intro conjI ballI impI)
    fix a b assume "a \<in> S" "b \<in> S"
    with c show "f b a \<noteq> None" by (simp add: consistentOn_def)
  next
    fix a assume "a \<in> S"
    then show "sortCompare f a a = 0" by (rule consistent_refl [OF c])
  next
    fix a b assume "a \<in> S" "b \<in> S" "sortCompare f b a = 0"
    then show "sortCompare f a b = 0" by (simp add: consistent_sym [OF c])
  next
    fix a b d assume "a \<in> S" "b \<in> S" "d \<in> S" "sortCompare f b a = 0 \<and> sortCompare f d b = 0"
    then show "sortCompare f d a = 0" using consistent_eq_trans [OF c, of d b a] by simp
  next
    fix a b d assume "a \<in> S" "b \<in> S" "d \<in> S" "sortCompare f b a < 0 \<and> sortCompare f d b < 0"
    then show "sortCompare f d a < 0" using consistent_less_trans [OF c, of d b a] by simp
  next
    fix a b d assume "a \<in> S" "b \<in> S" "d \<in> S" "0 < sortCompare f b a \<and> 0 < sortCompare f d b"
    then show "0 < sortCompare f d a" using consistent_greater_trans [OF c, of d b a] by simp
  qed
qed

lemma consistentOn_minus:
  assumes "\<And>a. a \<in> S \<Longrightarrow> g a \<noteq> None"
  shows "consistentOn (\<lambda>a b. minus_number (g a) (g b)) S"
proof (rule consistentOn_key [where k = "\<lambda>a. case g a of Some t \<Rightarrow> t | None \<Rightarrow> 0"])
  fix a b assume "a \<in> S" "b \<in> S"
  then obtain s t where "g a = Some s" "g b = Some t" using assms by fastforce
  then show "minus_number (g a) (g b) \<noteq> None"
    and "(sortCompare (\<lambda>a b. minus_number (g a) (g b)) a b < 0) =
      ((case g a of Some t \<Rightarrow> t | None \<Rightarrow> 0) < (case g b of Some t \<Rightarrow> t | None \<Rightarrow> 0))"
    and "(sortCompare (\<lambda>a b. minus_number (g a) (g b)) a b = 0) =
      ((case g a of Some t \<Rightarrow> t | None \<Rightarrow> 0) = (case g b of Some t \<Rightarrow> t | None \<Rightarrow> 0))"
    by (simp_all add: sortCompare_def minus_number_def)
qed

lemma consistentOn_localeCompare:
  "consistentOn (\<lambda>a b. localeCompare collationKey (g a) (g b)) S"
  by (rule consistentOn_key [where k = "\<lambda>a. collationKey (g a)"])
     (auto simp: sortCompare_def localeCompare_def)

lemma or0_number: "or0 v \<noteq> None"
  by (simp add: or0_def split: option.split)

lemma comparePosts_consistent:
  assumes "sortOrder \<in> {date_asc, date_desc} \<longrightarrow> (\<forall>p\<in>S. getTime (date p) \<noteq> None)"
  shows "consistentOn (comparePosts getTime collationKey lang sortOrder) S"
proof (cases sortOrder)
  case date_asc
  then have "comparePosts getTime collationKey lang sortOrder =
      (\<lambda>a b. minus_number (getTime (date a)) (getTime (date b)))"
    by (intro ext) (simp add: comparePosts_def)
  with assms date_asc show ?thesis by (simp add: consistentOn_minus)
next
  case date_desc
  then have "comparePosts getTime collationKey lang sortOrder =
      (\<lambda>a b. minus_number (getTime (date b)) (getTime (date a)))"
    by (intro ext) (simp add: comparePosts_def)
  with assms date_desc show ?thesis by (simp add: consistentOn_flip [OF consistentOn_minus])
next
  case title_asc
  then have "comparePosts getTime collationKey lang sortOrder =
      (\<lambda>a b. localeCompare collationKey (postTitle lang a) (postTitle lang b))"
    by (intro ext) (simp add: comparePosts_def)
  then show ?thesis by (simp only: consistentOn_localeCompare)
next
  case title_desc
  then have "comparePosts getTime collationKey lang sortOrder =
      (\<lambda>a b. localeCompare collationKey (postTitle lang b) (postTitle lang a))"
    by (intro ext) (simp add: comparePosts_def)
  then show ?thesis by (simp only: consistentOn_flip [OF consistentOn_localeCompare])
next
  case views_desc
  then have "comparePosts getTime collationKey lang sortOrder =
      (\<lambda>a b. minus_number (or0 (views b)) (or0 (views a)))"
    by (intro ext) (simp add: comparePosts_def)
  then show ?thesis by (simp only: consistentOn_flip [OF consistentOn_minus [OF or0_number]])
next
  case views_asc
  then have "comparePosts getTime collationKey lang sortOrder =
      (\<lambda>a b. minus_number (or0 (views a)) (or0 (views b)))"
    by (intro ext) (simp add: comparePosts_def)
  then show ?thesis by (simp only: consistentOn_minus [OF or0_number])
qed

lemma compareItems_consistent:
  assumes "sortKey \<in> {key_date_asc, key_date_desc} \<longrightarrow>
      (\<forall>i\<in>S. truthy (item_date i) \<longrightarrow> getTime (item_date i) \<noteq> None)"
  shows "consistentOn (compareItems getTime collationKey t lang sortKey) S"
proof (cases sortKey)
  case key_date_asc
  then have e: "compareItems getTime collationKey t lang sortKey =
      (\<lambda>a b. minus_number (itemTime getTime a) (itemTime getTime b))"
    by (intro ext) (simp add: compareItems_def)
  have n: "itemTime getTime a \<noteq> None" if "a \<in> S" for a
    using assms key_date_asc that by (simp add: itemTime_def)
  show ?thesis
    unfolding e by (rule consistentOn_minus) (rule n)
next
  case key_date_desc
  then have e: "compareItems getTime collationKey t lang sortKey =
      (\<lambda>a b. minus_number (itemTime getTime b) (itemTime getTime a))"
    by (intro ext) (simp add: compareItems_def)
  have n: "itemTime getTime a \<noteq> None" if "a \<in> S" for a
    using assms key_date_desc that by (simp add: itemTime_def)
  show ?thesis
    unfolding e by (rule consistentOn_flip [OF consistentOn_minus]) (rule n)
next
  case key_views_desc
  then have "compareItems getTime collationKey t lang sortKey =
      (\<lambda>a b. minus_number (or0 (item_views b)) (or0 (item_views a)))"
    by (intro ext) (simp add: compareItems_def)
  then show ?thesis by (simp only: consistentOn_flip [OF consistentOn_minus [OF or0_number]])
next
  case key_views_asc
  then have "compareItems getTime collationKey t lang sortKey =
      (\<lambda>a b. minus_number (or0 (item_views a)) (or0 (item_views b)))"
    by (intro ext) (simp add: compareItems_def)
  then show ?thesis by (simp only: consistentOn_minus [OF or0_number])
next
  case key_title_asc
  then have "compareItems getTime collationKey t lang sortKey =
      (\<lambda>a b. localeCompare collationKey (itemTitle lang a) (itemTitle lang b))"
    by (intro ext) (simp add: compareItems_def)
  then show ?thesis by (simp only: consistentOn_localeCompare)
next
  case key_title_desc
  then have "compareItems getTime collationKey t lang sortKey =
      (\<lambda>a b. localeCompare collationKey (itemTitle lang b) (itemTitle lang a))"
    by (intro ext) (simp add: compareItems_def)
  then show ?thesis by (simp only: consistentOn_flip [OF consistentOn_localeCompare])
next
  case key_category_asc
  then have "compareItems getTime collationKey t lang sortKey =
      (\<lambda>a b. localeCompare collationKey (t (item_categoryKey a)) (t (item_categoryKey b)))"
    by (intro ext) (simp add: compareItems_def)
  then show ?thesis by (simp only: consistentOn_localeCompare)
next
  case key_category_desc
  then have "compareItems getTime collationKey t lang sortKey =
      (\<lambda>a b. localeCompare collationKey (t (item_categoryKey b)) (t (item_categoryKey a)))"
    by (intro ext) (simp add: compareItems_def)
  then show ?thesis by (simp only: consistentOn_flip [OF consistentOn_localeCompare])
qed

text \<open>The posts that pass the category filter pass it again.\<close>

lemma filterPosts_subset: "set (filterPosts defs filterCategory posts) \<subseteq> set posts"
  by (auto simp: filterPosts_def split: option.splits)

lemma filterPosts_again:
  "set ys = set (filterPosts defs filterCategory posts) \<Longrightarrow> filterPosts defs filterCategory ys = ys"
  by (auto simp: filterPosts_def split: option.splits intro!: filter_True)

text \<open>The merge sort on a list that is written out.\<close>

lemma mergeSort_Nil: "mergeSort f [] = []"
  by (simp add: mergeSort.simps)

lemma mergeSort_single: "mergeSort f [x] = [x]"
  by (simp add: mergeSort.simps)

lemma mergeSort_more:
  "mergeSort f (x # y # zs) =
     mergeRuns f (mergeSort f (take (length (x # y # zs) div 2) (x # y # zs)))
                 (mergeSort f (drop (length (x # y # zs) div 2) (x # y # zs)))"
  by (simp add: mergeSort.simps [of f "x # y # zs"])

lemma calendar_times:
  "calendar_getTime (date (dated_post i [])) = None"
  "calendar_getTime (date (dated_post i ''2024-01-01'')) = Some 1704067200000"
  "calendar_getTime (date (dated_post i ''2024-01-05'')) = Some 1704412800000"
  "calendar_getTime (date (dated_post i ''2024-01-06'')) = Some 1704499200000"
  "calendar_getTime (date (dated_post i ''2024-01-07'')) = Some 1704585600000"
  "calendar_getTime (date (dated_post i ''2024-01-08'')) = Some 1704672000000"
  "calendar_getTime (date (dated_post i ''2024-01-09'')) = Some 1704758400000"
  "calendar_getTime (date (dated_post i ''2024-01-10'')) = Some 1704844800000"
  by (simp_all add: calendar_getTime_def calendar_def dated_post_def asc_def)

lemma date_asc_compare:
  "sortCompare (comparePosts getTime collationKey lang date_asc) a b =
     (case minus_number (getTime (date a)) (getTime (date b)) of None \<Rightarrow> 0 | Some v \<Rightarrow> v)"
  by (simp add: sortCompare_def comparePosts_def)

text \<open>
  C7, as stated, fails: where a post has no date that parses, the date comparator yields
  \<open>NaN\<close> and is not consistent, and a sort that meets the standard need not reproduce its
  own output.  The merge sort puts the eight posts, taken by ascending date, in the order
  \<open>p1, p6, p7, p8, p9, p0, p5, p10\<close>, and that list in the order
  \<open>p1, p5, p6, p7, p8, p9, p0, p10\<close>; so the second run of \<open>processedPosts\<close> changes the
  order.
\<close>

theorem sort_twice_differs_without_date:
  "mergeSort (comparePosts calendar_getTime length (asc ''en'') date_asc) eight_posts
     = [dated_post ''p1'' ''2024-01-01'', dated_post ''p6'' ''2024-01-06'',
        dated_post ''p7'' ''2024-01-07'', dated_post ''p8'' ''2024-01-08'',
        dated_post ''p9'' ''2024-01-09'', dated_post ''p0'' [],
        dated_post ''p5'' ''2024-01-05'', dated_post ''p10'' ''2024-01-10'']
   \<and> mergeSort (comparePosts calendar_getTime length (asc ''en'') date_asc)
       [dated_post ''p1'' ''2024-01-01'', dated_post ''p6'' ''2024-01-06'',
        dated_post ''p7'' ''2024-01-07'', dated_post ''p8'' ''2024-01-08'',
        dated_post ''p9'' ''2024-01-09'', dated_post ''p0'' [],
        dated_post ''p5'' ''2024-01-05'', dated_post ''p10'' ''2024-01-10'']
     = [dated_post ''p1'' ''2024-01-01'', dated_post ''p5'' ''2024-01-05'',
        dated_post ''p6'' ''2024-01-06'', dated_post ''p7'' ''2024-01-07'',
        dated_post ''p8'' ''2024-01-08'', dated_post ''p9'' ''2024-01-09'',
        dated_post ''p0'' [], dated_post ''p10'' ''2024-01-10'']
   \<and> processedPosts mergeSort calendar_getTime length (asc ''en'') [] (asc ''all'') date_asc
       (processedPosts mergeSort calendar_getTime length (asc ''en'') [] (asc ''all'') date_asc eight_posts)
     \<noteq> processedPosts mergeSort calendar_getTime length (asc ''en'') [] (asc ''all'') date_asc eight_posts"
proof -
  let ?f = "comparePosts calendar_getTime length (asc ''en'') date_asc"
  let ?once = "[dated_post ''p1'' ''2024-01-01'', dated_post ''p6'' ''2024-01-06'',
        dated_post ''p7'' ''2024-01-07'', dated_post ''p8'' ''2024-01-08'',
        dated_post ''p9'' ''2024-01-09'', dated_post ''p0'' [],
        dated_post ''p5'' ''2024-01-05'', dated_post ''p10'' ''2024-01-10'']"
  let ?twice = "[dated_post ''p1'' ''2024-01-01'', dated_post ''p5'' ''2024-01-05'',
        dated_post ''p6'' ''2024-01-06'', dated_post ''p7'' ''2024-01-07'',
        dated_post ''p8'' ''2024-01-08'', dated_post ''p9'' ''2024-01-09'',
        dated_post ''p0'' [], dated_post ''p10'' ''2024-01-10'']"
  have once: "mergeSort ?f eight_posts = ?once"
    by (simp add: eight_posts_def mergeSort_more mergeSort_single date_asc_compare calendar_times
        minus_number_def)
  have twice: "mergeSort ?f ?once = ?twice"
    by (simp add: mergeSort_more mergeSort_single date_asc_compare calendar_times minus_number_def)
  have differ: "?twice \<noteq> ?once"
    by (simp add: dated_post_def asc_def)
  have all: "filterPosts [] (asc ''all'') posts = posts" for posts
    by (simp add: filterPosts_def)
  from once twice differ show ?thesis
    by (simp only: processedPosts_def all) simp
qed

text \<open>
  The two sorts differ on these posts: the insertion sort leaves them in the order given.
\<close>

lemma sorts_differ_without_date:
  "insertionSort (comparePosts calendar_getTime length (asc ''en'') date_asc) eight_posts = eight_posts
   \<and> mergeSort (comparePosts calendar_getTime length (asc ''en'') date_asc) eight_posts \<noteq> eight_posts"
proof -
  have "insertionSort (comparePosts calendar_getTime length (asc ''en'') date_asc) eight_posts = eight_posts"
    by (simp add: eight_posts_def insertionSort_def date_asc_compare calendar_times minus_number_def)
  moreover have "mergeSort (comparePosts calendar_getTime length (asc ''en'') date_asc) eight_posts \<noteq> eight_posts"
    by (simp add: eight_posts_def mergeSort_more mergeSort_single date_asc_compare calendar_times
        minus_number_def)
       (simp add: dated_post_def asc_def)
  ultimately show ?thesis by simp
qed

text \<open>
  C7.  Let the sort of the engine meet the language standard.  For every collection and
  every sort key for which the comparator is consistent, which is so for the title,
  views and category keys always and for the date keys when every date of the collection
  parses, sorting the sorted collection again yields the same order: for the posts of the
  management page, for its whole \<open>processedPosts\<close>, filter included, and for the portfolio
  items.
\<close>

theorem sort_twice_same_order:
  assumes "conforming sortPosts" and "conforming sortItems"
    and "sortOrder \<in> {date_asc, date_desc} \<longrightarrow> (\<forall>p\<in>set posts. getTime (date p) \<noteq> None)"
    and "sortKey \<in> {key_date_asc, key_date_desc} \<longrightarrow>
           (\<forall>i\<in>set items. truthy (item_date i) \<longrightarrow> getTime (item_date i) \<noteq> None)"
  shows "sortPosts (comparePosts getTime collationKey lang sortOrder)
       (sortPosts (comparePosts getTime collationKey lang sortOrder) posts) =
     sortPosts (comparePosts getTime collationKey lang sortOrder) posts
   \<and> processedPosts sortPosts getTime collationKey lang defs filterCategory sortOrder
       (processedPosts sortPosts getTime collationKey lang defs filterCategory sortOrder posts) =
     processedPosts sortPosts getTime collationKey lang defs filterCategory sortOrder posts
   \<and> sortedItems sortItems getTime collationKey t lang sortKey
       (sortedItems sortItems getTime collationKey t lang sortKey items) =
     sortedItems sortItems getTime collationKey t lang sortKey items"
proof (intro conjI)
  let ?f = "comparePosts getTime collationKey lang sortOrder"
  have c: "consistentOn ?f (set posts)"
    by (rule comparePosts_consistent [OF assms(3)])
  show "sortPosts ?f (sortPosts ?f posts) = sortPosts ?f posts"
    by (rule conforming_idempotent [OF assms(1) c])
  let ?ys = "filterPosts defs filterCategory posts"
  have c': "consistentOn ?f (set ?ys)"
    by (rule consistentOn_subset [OF c filterPosts_subset])
  have "filterPosts defs filterCategory (sortPosts ?f ?ys) = sortPosts ?f ?ys"
    by (rule filterPosts_again [OF conforming_set [OF assms(1)]])
  then show "processedPosts sortPosts getTime collationKey lang defs filterCategory sortOrder
       (processedPosts sortPosts getTime collationKey lang defs filterCategory sortOrder posts) =
     processedPosts sortPosts getTime collationKey lang defs filterCategory sortOrder posts"
    by (simp only: processedPosts_def conforming_idempotent [OF assms(1) c'])
  show "sortedItems sortItems getTime collationKey t lang sortKey
       (sortedItems sortItems getTime collationKey t lang sortKey items) =
     sortedItems sortItems getTime collationKey t lang sortKey items"
    unfolding sortedItems_def
    by (rule conforming_idempotent [OF assms(2) compareItems_consistent [OF assms(4)]])
qed

theorem sort_twice_same_order_witness:
  "mergeSort (comparePosts calendar_getTime length (asc ''en'') date_asc)
       [dated_post ''p9'' ''2024-01-09'', dated_post ''p1'' ''2024-01-01'',
        dated_post ''p5'' ''2024-01-05'', dated_post ''p6'' ''2024-01-06'',
        dated_post ''p7'' ''2024-01-07'', dated_post ''p8'' ''2024-01-08'',
        dated_post ''p10'' ''2024-01-10'']
     = [dated_post ''p1'' ''2024-01-01'', dated_post ''p5'' ''2024-01-05'',
        dated_post ''p6'' ''2024-01-06'', dated_post ''p7'' ''2024-01-07'',
        dated_post ''p8'' ''2024-01-08'', dated_post ''p9'' ''2024-01-09'',
        dated_post ''p10'' ''2024-01-10'']
   \<and> mergeSort (comparePosts calendar_getTime length (asc ''en'') date_asc)
       [dated_post ''p1'' ''2024-01-01'', dated_post ''p5'' ''2024-01-05'',
        dated_post ''p6'' ''2024-01-06'', dated_post ''p7'' ''2024-01-07'',
        dated_post ''p8'' ''2024-01-08'', dated_post ''p9'' ''2024-01-09'',
        dated_post ''p10'' ''2024-01-10'']
     = [dated_post ''p1'' ''2024-01-01'', dated_post ''p5'' ''2024-01-05'',
        dated_post ''p6'' ''2024-01-06'', dated_post ''p7'' ''2024-01-07'',
        dated_post ''p8'' ''2024-01-08'', dated_post ''p9'' ''2024-01-09'',
        dated_post ''p10'' ''2024-01-10'']
   \<and> insertionSort (comparePosts calendar_getTime length (asc ''en'') views_desc)
       (insertionSort (comparePosts calendar_getTime length (asc ''en'') views_desc) eight_posts)
     = insertionSort (comparePosts calendar_getTime length (asc ''en'') views_desc) eight_posts"
proof -
  let ?f = "comparePosts calendar_getTime length (asc ''en'') date_asc"
  let ?posts = "[dated_post ''p9'' ''2024-01-09'', dated_post ''p1'' ''2024-01-01'',
        dated_post ''p5'' ''2024-01-05'', dated_post ''p6'' ''2024-01-06'',
        dated_post ''p7'' ''2024-01-07'', dated_post ''p8'' ''2024-01-08'',
        dated_post ''p10'' ''2024-01-10'']"
  let ?sorted = "[dated_post ''p1'' ''2024-01-01'', dated_post ''p5'' ''2024-01-05'',
        dated_post ''p6'' ''2024-01-06'', dated_post ''p7'' ''2024-01-07'',
        dated_post ''p8'' ''2024-01-08'', dated_post ''p9'' ''2024-01-09'',
        dated_post ''p10'' ''2024-01-10'']"
  have dates: "date_asc \<in> {date_asc, date_desc} \<longrightarrow> (\<forall>p\<in>set ?posts. calendar_getTime (date p) \<noteq> None)"
    by (simp add: calendar_times)
  have views: "views_desc \<in> {date_asc, date_desc} \<longrightarrow> (\<forall>p\<in>set eight_posts. calendar_getTime (date p) \<noteq> None)"
    by simp
  have items: "key_title_asc \<in> {key_date_asc, key_date_desc} \<longrightarrow>
      (\<forall>i\<in>set [example_item]. truthy (item_date i) \<longrightarrow> calendar_getTime (item_date i) \<noteq> None)"
    by simp
  have once: "mergeSort ?f ?posts = ?sorted"
    by (simp add: mergeSort_more mergeSort_single date_asc_compare calendar_times minus_number_def)
  from sort_twice_same_order [where collationKey = length and lang = "asc ''en''" and defs = "[]"
      and filterCategory = "asc ''all''" and t = id,
      OF mergeSort_conforming mergeSort_conforming dates items]
  have m: "mergeSort ?f (mergeSort ?f ?posts) = mergeSort ?f ?posts"
    by blast
  from sort_twice_same_order [where collationKey = length and lang = "asc ''en''" and defs = "[]"
      and filterCategory = "asc ''all''" and t = id,
      OF insertionSort_conforming mergeSort_conforming views items]
  have i: "insertionSort (comparePosts calendar_getTime length (asc ''en'') views_desc)
       (insertionSort (comparePosts calendar_getTime length (asc ''en'') views_desc) eight_posts)
     = insertionSort (comparePosts calendar_getTime length (asc ''en'') views_desc) eight_posts"
    by blast
  from m have "mergeSort ?f ?sorted = ?sorted"
    by (simp only: once)
  with once i show ?thesis by blast
qed

section \<open>Pagination\<close>

lemma slice_within:
  "0 \<le> start \<Longrightarrow> start \<le> end' \<Longrightarrow>
   slice xs start end' = take (nat end' - nat start) (drop (nat start) xs)"
proof -
  assume s: "0 \<le> start" and e: "start \<le> end'"
  let ?len = "int (length xs)"
  have k: "(if start < 0 then max (?len + start) 0 else min start ?len) = min start ?len"
    using s by simp
  have f: "(if end' < 0 then max (?len + end') 0 else min end' ?len) = min end' ?len"
    using s e by simp
  have "take (nat (min end' ?len - min start ?len)) (drop (nat (min start ?len)) xs) =
        take (nat end' - nat start) (drop (nat start) xs)"
  proof (cases "start \<le> ?len")
    case True
    then have m: "min start ?len = start" by simp
    show ?thesis
    proof (cases "end' \<le> ?len")
      case True
      with s e show ?thesis by (simp add: m nat_diff_distrib)
    next
      case False
      with s e True have "nat (?len - start) = length xs - nat start"
        by (simp add: nat_diff_distrib)
      moreover from False s e True have "length xs - nat start \<le> nat end' - nat start"
        by linarith
      ultimately show ?thesis using False by (simp add: m min_def)
    qed
  next
    case False
    with s e show ?thesis by (simp add: min_def)
  qed
  then show ?thesis
    unfolding slice_def Let_def k f .
qed

lemma paginatedPosts_page:
  assumes "1 \<le> page" and "0 \<le> psize"
  shows "paginatedPosts xs page psize = take (nat psize) (drop ((nat page - 1) * nat psize) xs)"
proof -
  have s: "0 \<le> (page - 1) * psize" using assms by simp
  have e: "(page - 1) * psize \<le> (page - 1) * psize + psize" using assms by simp
  have n: "nat ((page - 1) * psize) = (nat page - 1) * nat psize"
    using assms by (simp add: nat_mult_distrib nat_diff_distrib)
  have d: "nat ((page - 1) * psize + psize) - nat ((page - 1) * psize) = nat psize"
    using assms s by (simp add: nat_add_distrib)
  have "paginatedPosts xs page psize =
      take (nat ((page - 1) * psize + psize) - nat ((page - 1) * psize)) (drop (nat ((page - 1) * psize)) xs)"
    unfolding paginatedPosts_def Let_def by (rule slice_within [OF s e])
  also have "\<dots> = take (nat psize) (drop ((nat page - 1) * nat psize) xs)"
    by (simp only: d) (simp only: n)
  finally show ?thesis .
qed

lemma concat_pages:
  "concat (map (\<lambda>p. take n (drop (p * n) xs)) [0..<k]) = take (k * n) xs"
proof (induction k)
  case 0
  show ?case by simp
next
  case (Suc k)
  have "take (k * n) xs @ take n (drop (k * n) xs) = take (k * n + n) xs"
    by (simp add: take_add)
  with Suc show ?case by (simp add: add.commute)
qed

lemma pages_upto:
  "map (\<lambda>p. paginatedPosts xs p psize) [1..int k] = map (\<lambda>p. take (nat psize) (drop (p * nat psize) xs)) [0..<k]"
  if "0 \<le> psize"
proof (induction k)
  case 0
  show ?case by simp
next
  case (Suc k)
  have u: "[1..int (Suc k)] = [1..int k] @ [int (Suc k)]"
    by (simp add: upto_rec2)
  have k: "nat (int (Suc k)) - 1 = k" by simp
  have "1 \<le> int (Suc k)" by simp
  then have p: "paginatedPosts xs (int (Suc k)) psize = take (nat psize) (drop (k * nat psize) xs)"
    using paginatedPosts_page [of "int (Suc k)" psize xs] that by (simp only: k)
  show ?case
    by (simp only: u map_append Suc.IH upt_Suc_append [OF le0] list.map p)
qed

text \<open>
  C8.  A page is the slice from \<open>(page - 1) * pageSize\<close> to \<open>page * pageSize\<close>.  For a page
  size of at least one, the pages from the first to the last, which is the number of
  items divided by the page size and rounded up, give the whole collection when put one
  after the other, and every page after the last is empty.
\<close>

theorem pagination_partitions:
  "paginatedPosts xs page pageSize = slice xs ((page - 1) * pageSize) (page * pageSize)
   \<and> (1 \<le> pageSize \<longrightarrow>
        concat (map (\<lambda>p. paginatedPosts xs p pageSize)
                 [1 .. (int (length xs) + pageSize - 1) div pageSize]) = xs)
   \<and> (1 \<le> pageSize \<and> (int (length xs) + pageSize - 1) div pageSize < page \<longrightarrow>
        paginatedPosts xs page pageSize = [])"
proof (intro conjI impI)
  show "paginatedPosts xs page pageSize = slice xs ((page - 1) * pageSize) (page * pageSize)"
    by (simp add: paginatedPosts_def Let_def algebra_simps)
next
  assume s: "1 \<le> pageSize"
  let ?last = "(int (length xs) + pageSize - 1) div pageSize"
  have nn: "0 \<le> ?last" using s by (simp add: pos_imp_zdiv_nonneg_iff)
  have ge: "int (length xs) \<le> ?last * pageSize"
  proof -
    have "(int (length xs) + pageSize - 1) mod pageSize \<le> pageSize - 1"
      using s pos_mod_bound [of pageSize "int (length xs) + pageSize - 1"] by simp
    moreover have "?last * pageSize + (int (length xs) + pageSize - 1) mod pageSize
        = int (length xs) + pageSize - 1"
      by simp
    ultimately show ?thesis by linarith
  qed
  have "length xs \<le> nat ?last * nat pageSize"
  proof -
    have "int (length xs) \<le> int (nat ?last * nat pageSize)"
      using ge nn s by simp
    then show ?thesis by linarith
  qed
  then have t: "take (nat ?last * nat pageSize) xs = xs" by simp
  have "map (\<lambda>p. paginatedPosts xs p pageSize) [1 .. ?last] =
        map (\<lambda>p. take (nat pageSize) (drop (p * nat pageSize) xs)) [0..<nat ?last]"
    using pages_upto [of pageSize xs "nat ?last"] s nn by simp
  then show "concat (map (\<lambda>p. paginatedPosts xs p pageSize) [1 .. ?last]) = xs"
    by (simp only: concat_pages t)
next
  assume a: "1 \<le> pageSize \<and> (int (length xs) + pageSize - 1) div pageSize < page"
  let ?last = "(int (length xs) + pageSize - 1) div pageSize"
  from a have s: "1 \<le> pageSize" and l: "?last < page" by simp_all
  have nn: "0 \<le> ?last" using s by (simp add: pos_imp_zdiv_nonneg_iff)
  have ge: "int (length xs) \<le> ?last * pageSize"
  proof -
    have "(int (length xs) + pageSize - 1) mod pageSize \<le> pageSize - 1"
      using s pos_mod_bound [of pageSize "int (length xs) + pageSize - 1"] by simp
    moreover have "?last * pageSize + (int (length xs) + pageSize - 1) mod pageSize
        = int (length xs) + pageSize - 1"
      by simp
    ultimately show ?thesis by linarith
  qed
  have p1: "1 \<le> page" using l nn by simp
  have "?last * pageSize \<le> (page - 1) * pageSize"
    using l s by (simp add: mult_right_mono)
  with ge have "int (length xs) \<le> (page - 1) * pageSize" by simp
  then have "int (length xs) \<le> int ((nat page - 1) * nat pageSize)"
    using p1 s by (simp add: nat_diff_distrib nat_mult_distrib)
  then have "length xs \<le> (nat page - 1) * nat pageSize" by linarith
  then show "paginatedPosts xs page pageSize = []"
    using paginatedPosts_page [of page pageSize xs] p1 s by simp
qed

theorem pagination_partitions_witness:
  "(1::int) \<le> 2
   \<and> (int (length [10, 20, 30, 40, 50 :: nat]) + 2 - 1) div 2 = 3
   \<and> map (\<lambda>p. paginatedPosts [10, 20, 30, 40, 50 :: nat] p 2) [1, 2, 3] = [[10, 20], [30, 40], [50]]
   \<and> concat (map (\<lambda>p. paginatedPosts [10, 20, 30, 40, 50 :: nat] p 2) [1 .. 3]) = [10, 20, 30, 40, 50]
   \<and> paginatedPosts [10, 20, 30, 40, 50 :: nat] 4 2 = []"
proof -
  have l: "(int (length [10, 20, 30, 40, 50 :: nat]) + 2 - 1) div 2 = 3" by simp
  note t = pagination_partitions [of "[10, 20, 30, 40, 50 :: nat]" 4 2, unfolded l]
  have h: "(1::int) \<le> 2" "(3::int) < 4" by simp_all
  from t h have c: "concat (map (\<lambda>p. paginatedPosts [10, 20, 30, 40, 50 :: nat] p 2) [1 .. 3]) = [10, 20, 30, 40, 50]"
    by blast
  from t h have e: "paginatedPosts [10, 20, 30, 40, 50 :: nat] 4 2 = []"
    by blast
  have m: "map (\<lambda>p. paginatedPosts [10, 20, 30, 40, 50 :: nat] p 2) [1, 2, 3] = [[10, 20], [30, 40], [50]]"
    by (simp add: paginatedPosts_def slice_def)
  from h l c e m show ?thesis by blast
qed

section \<open>The content handlers\<close>

text \<open>
  C9.  When \<open>isSuperUser\<close> is false, each of the seven handlers that change content (save,
  add and delete for posts; add, update and delete for portfolio items; delete for a
  comment) returns the state it was given: the three collections are unchanged and no
  request is sent.
\<close>

theorem handlers_need_super_user:
  assumes "\<not> isSuperUser authenticated usr"
  shows "handleSaveBlogPost (isSuperUser authenticated usr) postData a = a
       \<and> handleAddBlogPost (isSuperUser authenticated usr) postData a = a
       \<and> handleDeleteBlogPosts (isSuperUser authenticated usr) outcomes ids a = a
       \<and> handleAddPortfolioItem (isSuperUser authenticated usr) item a = a
       \<and> handleUpdatePortfolioItem (isSuperUser authenticated usr) item a = a
       \<and> handleDeletePortfolioItems (isSuperUser authenticated usr) outcomes ids a = a
       \<and> handleDeleteComment (isSuperUser authenticated usr) stack outcome i a = Some a"
  using assms
  by (simp add: handleSaveBlogPost_def handleAddBlogPost_def handleDeleteBlogPosts_def
      handleAddPortfolioItem_def handleUpdatePortfolioItem_def handleDeletePortfolioItems_def
      handleDeleteComment_def)

theorem handlers_need_super_user_witness:
  "\<not> isSuperUser True (Some ordinary_user)
   \<and> handleSaveBlogPost (isSuperUser True (Some ordinary_user)) post_a example_app = example_app
   \<and> handleAddBlogPost (isSuperUser True (Some ordinary_user)) post_a example_app = example_app
   \<and> handleDeleteBlogPosts (isSuperUser True (Some ordinary_user)) (\<lambda>i. deleted_response) [asc ''a'']
        example_app = example_app
   \<and> handleAddPortfolioItem (isSuperUser True (Some ordinary_user)) example_item example_app = example_app
   \<and> handleUpdatePortfolioItem (isSuperUser True (Some ordinary_user)) example_item example_app = example_app
   \<and> handleDeletePortfolioItems (isSuperUser True (Some ordinary_user)) (\<lambda>i. deleted_response) [asc ''a'']
        example_app = example_app
   \<and> handleDeleteComment (isSuperUser True (Some ordinary_user)) 7 deleted_response (asc ''1'')
        example_app = Some example_app"
proof -
  have h: "\<not> isSuperUser True (Some ordinary_user)"
    by (simp add: isSuperUser_def ordinary_user_def asc_def)
  from handlers_need_super_user [OF h, of post_a example_app "\<lambda>i. deleted_response" "[asc ''a'']"
      example_item 7 deleted_response "asc ''1''"] h
  show ?thesis by blast
qed

lemma descendants_ids: "descendants p x \<subseteq> comment_id ` set p"
proof
  fix y
  assume "y \<in> descendants p x"
  then show "y \<in> comment_id ` set p"
    by (induction rule: descendants.induct) auto
qed

lemma finite_descendants: "finite (descendants p x)"
  by (rule finite_subset [OF descendants_ids]) simp

lemma card_descendants: "card (descendants p x) \<le> length p"
proof -
  have "card (descendants p x) \<le> card (comment_id ` set p)"
    by (rule card_mono [OF _ descendants_ids]) simp
  also have "\<dots> \<le> card (set p)" by (rule card_image_le) simp
  also have "\<dots> \<le> length p" by (rule card_length)
  finally show ?thesis .
qed

lemma descendants_trans:
  assumes "z \<in> descendants p y" and "y \<in> descendants p x"
  shows "z \<in> descendants p x"
  using assms
proof (induction rule: descendants.induct)
  case (child c)
  then show ?case by (auto intro: descendants.grandchild)
next
  case (grandchild c w)
  then show ?case by (auto intro: descendants.grandchild)
qed

lemma descendants_unfold:
  "descendants p x =
     (\<Union>c \<in> set (filter (\<lambda>c. parentId c = Some x) p). insert (comment_id c) (descendants p (comment_id c)))"
proof (intro equalityI subsetI)
  fix y
  assume "y \<in> descendants p x"
  then show "y \<in> (\<Union>c \<in> set (filter (\<lambda>c. parentId c = Some x) p).
                    insert (comment_id c) (descendants p (comment_id c)))"
  proof (induction rule: descendants.induct)
    case (child c)
    then show ?case by auto
  next
    case (grandchild c w)
    then obtain d where d: "d \<in> set p" "parentId d = Some x"
        and w: "w = comment_id d \<or> w \<in> descendants p (comment_id d)"
      by auto
    from w grandchild.hyps(1,2) have "comment_id c \<in> descendants p (comment_id d)"
      by (auto intro: descendants.child descendants.grandchild)
    with d show ?case by auto
  qed
next
  fix y
  assume "y \<in> (\<Union>c \<in> set (filter (\<lambda>c. parentId c = Some x) p).
                  insert (comment_id c) (descendants p (comment_id c)))"
  then obtain c where c: "c \<in> set p" "parentId c = Some x"
      and y: "y = comment_id c \<or> y \<in> descendants p (comment_id c)"
    by auto
  from c have "comment_id c \<in> descendants p x" by (rule descendants.child)
  with y show "y \<in> descendants p x" by (auto intro: descendants_trans)
qed

lemma descendants_smaller:
  assumes "y \<in> descendants p x" and "y \<notin> descendants p y"
  shows "card (descendants p y) < card (descendants p x)"
proof (rule psubset_card_mono [OF finite_descendants])
  from assms show "descendants p y \<subset> descendants p x"
    by (auto intro: descendants_trans)
qed

text \<open>
  When no comment is its own descendant, \<open>findChildren\<close> returns as soon as the stack has
  room for more nested calls than the comment has descendants, and it adds exactly the
  descendants to the set.
\<close>

lemma findChildren_descendants:
  shows "\<forall>y. y \<notin> descendants p y \<Longrightarrow> card (descendants p x) < depth \<Longrightarrow>
           findChildren depth p x toDelete = Some (toDelete \<union> descendants p x)"
    and "\<forall>y. y \<notin> descendants p y \<Longrightarrow>
         (\<And>c. c \<in> set cs \<Longrightarrow> card (descendants p (comment_id c)) < depth) \<Longrightarrow>
           forEachChild depth p cs toDelete =
             Some (toDelete \<union> (\<Union>c \<in> set cs. insert (comment_id c) (descendants p (comment_id c))))"
proof (induction depth p x toDelete and depth p cs toDelete rule: findChildren_forEachChild.induct)
  case (1 p parentId' toDelete)
  then show ?case by simp
next
  case (2 depth p parentId' toDelete)
  note acyclic = "2.prems"(1)
  have "card (descendants p (comment_id c)) < depth"
    if "c \<in> set (filter (\<lambda>c. parentId c = Some parentId') p)" for c
  proof -
    from that have "comment_id c \<in> descendants p parentId'"
      by (auto intro: descendants.child)
    then have "card (descendants p (comment_id c)) < card (descendants p parentId')"
      using acyclic by (intro descendants_smaller) simp_all
    with "2.prems"(2) show ?thesis by simp
  qed
  then have "forEachChild depth p (filter (\<lambda>c. parentId c = Some parentId') p) toDelete =
      Some (toDelete \<union> (\<Union>c \<in> set (filter (\<lambda>c. parentId c = Some parentId') p).
                          insert (comment_id c) (descendants p (comment_id c))))"
    by (intro "2.IH" acyclic)
  then show ?case
    by (simp only: findChildren.simps descendants_unfold [of p parentId', symmetric])
next
  case (3 depth p toDelete)
  show ?case by simp
next
  case (4 depth p c cs toDelete)
  note acyclic = "4.prems"(1)
  have first: "findChildren depth p (comment_id c) (insert (comment_id c) toDelete) =
      Some (insert (comment_id c) toDelete \<union> descendants p (comment_id c))"
    by (intro "4.IH"(1) acyclic) (simp add: "4.prems"(2))
  have rest: "forEachChild depth p cs (insert (comment_id c) toDelete \<union> descendants p (comment_id c)) =
      Some ((insert (comment_id c) toDelete \<union> descendants p (comment_id c))
             \<union> (\<Union>c \<in> set cs. insert (comment_id c) (descendants p (comment_id c))))"
    by (intro "4.IH"(2) [OF first] acyclic) (simp add: "4.prems"(2))
  have "forEachChild depth p (c # cs) toDelete =
      Some ((insert (comment_id c) toDelete \<union> descendants p (comment_id c))
             \<union> (\<Union>c \<in> set cs. insert (comment_id c) (descendants p (comment_id c))))"
    by (simp only: forEachChild.simps first option.case rest)
  also have "(insert (comment_id c) toDelete \<union> descendants p (comment_id c))
             \<union> (\<Union>c \<in> set cs. insert (comment_id c) (descendants p (comment_id c))) =
      toDelete \<union> (\<Union>c \<in> set (c # cs). insert (comment_id c) (descendants p (comment_id c)))"
    by auto
  finally show ?case .
qed

lemma no_cycle_by_rank:
  assumes "\<And>c x. c \<in> set p \<Longrightarrow> parentId c = Some x \<Longrightarrow> (rank x :: nat) < rank (comment_id c)"
  shows "y \<notin> descendants p y"
proof -
  have "rank x < rank z" if "z \<in> descendants p x" for x z
    using that
  proof (induction rule: descendants.induct)
    case (child c)
    then show ?case by (rule assms)
  next
    case (grandchild c w)
    from assms [OF grandchild.hyps(1,2)] grandchild.IH show ?case by simp
  qed
  then show ?thesis by blast
qed

text \<open>Whenever \<open>findChildren\<close> returns, it has added exactly the descendants.\<close>

lemma findChildren_returns:
  shows "findChildren depth p x toDelete = Some result \<Longrightarrow> result = toDelete \<union> descendants p x"
    and "forEachChild depth p cs toDelete = Some result \<Longrightarrow>
           result = toDelete \<union> (\<Union>c \<in> set cs. insert (comment_id c) (descendants p (comment_id c)))"
proof (induction depth p x toDelete and depth p cs toDelete arbitrary: result and result
    rule: findChildren_forEachChild.induct)
  case (1 p parentId' toDelete)
  then show ?case by simp
next
  case (2 depth p parentId' toDelete)
  from "2.prems" have "forEachChild depth p (filter (\<lambda>c. parentId c = Some parentId') p) toDelete = Some result"
    by simp
  then have "result = toDelete \<union> (\<Union>c \<in> set (filter (\<lambda>c. parentId c = Some parentId') p).
                          insert (comment_id c) (descendants p (comment_id c)))"
    by (rule "2.IH")
  then show ?case
    by (simp only: descendants_unfold [of p parentId', symmetric])
next
  case (3 depth p toDelete)
  then show ?case by simp
next
  case (4 depth p c cs toDelete)
  from "4.prems" obtain mid where
    first: "findChildren depth p (comment_id c) (insert (comment_id c) toDelete) = Some mid"
    and rest: "forEachChild depth p cs mid = Some result"
    by (auto split: option.splits)
  from "4.IH"(1) [OF first] have m: "mid = insert (comment_id c) toDelete \<union> descendants p (comment_id c)" .
  from "4.IH"(2) [OF first rest]
  have "result = mid \<union> (\<Union>c \<in> set cs. insert (comment_id c) (descendants p (comment_id c)))" .
  with m show ?case by auto
qed

text \<open>A reply to itself: \<open>findChildren\<close> overflows the stack, however deep it is.\<close>

lemma findChildren_cycle:
  "findChildren depth [\<lparr>comment_id = x, postId = q, text' = s, parentId = Some x\<rparr>] x toDelete = None"
  by (induction depth arbitrary: toDelete) simp_all

text \<open>
  C10.  Let a super user delete a comment and the request succeed.  Whenever the handler
  returns, what is left is the collection without the comment and without every comment
  whose chain of \<open>parentId\<close> leads to it: no comment that is left is the deleted one or
  a descendant of it, nor answers one of them.  And the handler does return when the
  replies form no cycle (no comment is its own descendant) and the stack has room for
  more nested calls than there are comments.
\<close>

theorem deleteComment_removes_descendants:
  assumes "fst (request (app_browser a) ''DELETE'' (asc ''/comments/'' @ i) outcome) = Inr v"
  shows "(handleDeleteComment True stack outcome i a = Some a' \<longrightarrow>
            allComments a' =
              filter (\<lambda>c. comment_id c \<noteq> i \<and> comment_id c \<notin> descendants (allComments a) i) (allComments a)
            \<and> (\<forall>c \<in> set (allComments a').
                  comment_id c \<noteq> i \<and> comment_id c \<notin> descendants (allComments a) i
                  \<and> parentId c \<noteq> Some i
                  \<and> (\<forall>x. parentId c = Some x \<longrightarrow> x \<notin> descendants (allComments a) i)))
       \<and> ((\<forall>y. y \<notin> descendants (allComments a) y) \<and> length (allComments a) < stack \<longrightarrow>
            (\<exists>a''. handleDeleteComment True stack outcome i a = Some a''))"
proof (intro conjI impI)
  let ?p = "allComments a"
  let ?D = "descendants ?p i"
  obtain b1 where r: "request (app_browser a) ''DELETE'' (asc ''/comments/'' @ i) outcome = (Inr v, b1)"
    using assms(1) by (cases "request (app_browser a) ''DELETE'' (asc ''/comments/'' @ i) outcome") simp
  {
    assume h: "handleDeleteComment True stack outcome i a = Some a'"
    then obtain result where f: "findChildren stack ?p i {i} = Some result"
      and a': "a' = a\<lparr>allComments := filter (\<lambda>c. comment_id c \<notin> result) ?p, app_browser := b1\<rparr>"
      by (auto simp: handleDeleteComment_def r Let_def split: option.splits)
    from findChildren_returns(1) [OF f] have res: "result = {i} \<union> ?D" .
    show l: "allComments a' = filter (\<lambda>c. comment_id c \<noteq> i \<and> comment_id c \<notin> ?D) ?p"
      by (simp add: a' res)
    show "\<forall>c \<in> set (allComments a').
            comment_id c \<noteq> i \<and> comment_id c \<notin> ?D \<and> parentId c \<noteq> Some i
            \<and> (\<forall>x. parentId c = Some x \<longrightarrow> x \<notin> ?D)"
    proof
      fix c
      assume "c \<in> set (allComments a')"
      then have c: "c \<in> set ?p" "comment_id c \<noteq> i" "comment_id c \<notin> ?D"
        by (simp_all add: l)
      from c(1,3) have "parentId c \<noteq> Some i"
        by (auto dest: descendants.child)
      moreover from c(1,3) have "\<forall>x. parentId c = Some x \<longrightarrow> x \<notin> ?D"
        by (auto dest: descendants.grandchild)
      ultimately show "comment_id c \<noteq> i \<and> comment_id c \<notin> ?D \<and> parentId c \<noteq> Some i
            \<and> (\<forall>x. parentId c = Some x \<longrightarrow> x \<notin> ?D)"
        using c by simp
    qed
  }
  {
    assume w: "(\<forall>y. y \<notin> descendants ?p y) \<and> length ?p < stack"
    then have "card ?D < stack"
      using card_descendants [of ?p i] by simp
    with w have f: "findChildren stack ?p i {i} = Some ({i} \<union> ?D)"
      by (intro findChildren_descendants(1)) simp_all
    show "\<exists>a''. handleDeleteComment True stack outcome i a = Some a''"
      by (simp add: handleDeleteComment_def r f Let_def)
  }
qed

theorem deleteComment_removes_descendants_witness:
  "fst (request (app_browser example_app) ''DELETE'' (asc ''/comments/'' @ asc ''1'') deleted_response) = Inr ()
   \<and> (\<forall>y. y \<notin> descendants (allComments example_app) y)
   \<and> length (allComments example_app) < 7
   \<and> (\<exists>a'. handleDeleteComment True 7 deleted_response (asc ''1'') example_app = Some a'
          \<and> allComments a' =
              filter (\<lambda>c. comment_id c \<noteq> asc ''1''
                        \<and> comment_id c \<notin> descendants (allComments example_app) (asc ''1''))
                (allComments example_app)
          \<and> allComments a' = [reply ''4'' None, reply ''6'' (Some ''4'')])"
proof -
  have h1: "fst (request (app_browser example_app) ''DELETE'' (asc ''/comments/'' @ asc ''1'') deleted_response)
      = Inr ()"
    by (simp add: request_def fetch_sent_def request_settle_def deleted_response_def response_ok_def)
  have h2: "\<forall>y. y \<notin> descendants (allComments example_app) y"
  proof
    fix y
    show "y \<notin> descendants (allComments example_app) y"
      by (rule no_cycle_by_rank [where rank = "\<lambda>s. case s of [] \<Rightarrow> 0 | c # cs \<Rightarrow> c"])
         (auto simp: example_app_def example_comments_def reply_def asc_def)
  qed
  have h3: "length (allComments example_app) < 7"
    by (simp add: example_app_def example_comments_def)
  have e: "handleDeleteComment True 7 deleted_response (asc ''1'') example_app =
      Some (example_app\<lparr>allComments := [reply ''4'' None, reply ''6'' (Some ''4'')],
               app_browser := (app_browser example_app)\<lparr>fetched := fetched (app_browser example_app)
                  @ [(''DELETE'', asc ''/comments/'' @ asc ''1'')]\<rparr>\<rparr>)"
    by (simp add: handleDeleteComment_def request_def fetch_sent_def request_settle_def deleted_response_def response_ok_def
        example_app_def example_comments_def reply_def asc_def eval_nat_numeral)
  note t = deleteComment_removes_descendants [OF h1, of 7
      "example_app\<lparr>allComments := [reply ''4'' None, reply ''6'' (Some ''4'')],
               app_browser := (app_browser example_app)\<lparr>fetched := fetched (app_browser example_app)
                  @ [(''DELETE'', asc ''/comments/'' @ asc ''1'')]\<rparr>\<rparr>"]
  from t e have "allComments (example_app\<lparr>allComments := [reply ''4'' None, reply ''6'' (Some ''4'')],
               app_browser := (app_browser example_app)\<lparr>fetched := fetched (app_browser example_app)
                  @ [(''DELETE'', asc ''/comments/'' @ asc ''1'')]\<rparr>\<rparr>) =
              filter (\<lambda>c. comment_id c \<noteq> asc ''1''
                        \<and> comment_id c \<notin> descendants (allComments example_app) (asc ''1''))
                (allComments example_app)"
    by blast
  with e h1 h2 h3 show ?thesis by simp
qed

end
